theory Spec2Isabelle
  imports Main "HOL-Library.AList" "HOL-Library.Sublist"
begin

section \<open>Values of the host language\<close>

text \<open>
  The code under study is \<^verbatim>\<open>src/lib/api/inline.preboot.code.ts\<close>. Its inputs are
  option objects: plain data (booleans, numbers, strings, arrays, nested objects) in which
  some fields hold functions. A function value is represented by what the code reads of
  it: the text that \<^verbatim>\<open>toString()\<close> returns and its declared number of parameters
  (the \<^verbatim>\<open>length\<close> property). Numbers are the integers (key codes); the ones the
  model answers for are the safe integers, which the runtime holds exactly and writes in
  full digits. Strings are lists of 8-bit characters. An object is the list of its own
  enumerable properties in enumeration order; its prototype is the standard one. Arrays
  have no holes and no named properties, functions have no properties of their own.
\<close>

datatype jsval =
    JUndefined
  | JNull
  | JBool bool
  | JNum int
  | JStr string
  | JArr "jsval list"
  | JObj "(string \<times> jsval) list"
  | JFun nat string

type_synonym obj = "(string \<times> jsval) list"

text \<open>The errors a run can end with: the configuration error of \<^verbatim>\<open>validateOptions\<close>,
  the \<^verbatim>\<open>TypeError\<close> that \<^verbatim>\<open>assign\<close> throws itself for a missing target
  (\<open>TargetTypeError\<close>), a \<^verbatim>\<open>TypeError\<close> raised by the runtime (a call of something that
  is not a function, a method call on \<^verbatim>\<open>undefined\<close>), and the runtime's
  \<^verbatim>\<open>RangeError: Invalid string length\<close>.

  A run has a third kind of outcome, \<open>Opaque\<close>: it reaches a point where what happens next
  is not determined by this code and the values above. That is a call of a function
  supplied by the caller (\<^verbatim>\<open>hasOwnProperty\<close>, \<^verbatim>\<open>toJSON\<close> or \<^verbatim>\<open>toString\<close> found as
  an own property), the replacement of the output object's prototype (an assignment to
  \<^verbatim>\<open>__proto__\<close>), or the encoding of a number that is not a safe integer.\<close>

datatype error = ConfigurationError | TargetTypeError | TypeError | RangeError

datatype 'a outcome = Returns 'a | Throws error | Opaque

text \<open>Top-level option objects are mutable and shared, so they live in a heap of objects
  addressed by index. A reference outside the heap denotes no object (it reads as
  \<^verbatim>\<open>undefined\<close>).\<close>

type_synonym ref = nat
type_synonym heap = "obj list"

definition deref :: "heap \<Rightarrow> ref \<Rightarrow> obj option" where
  "deref h r = (if r < length h then Some (h ! r) else None)"

definition alloc :: "obj \<Rightarrow> heap \<Rightarrow> ref \<times> heap" where
  "alloc ob h = (length h, h @ [ob])"

text \<open>Property names that are array indices (the canonical decimal form of a number
  below \<open>2^32 - 1\<close>) are enumerated first, in ascending order; the other names follow in
  the order in which the properties were created.\<close>

definition is_digit :: "char \<Rightarrow> bool" where
  "is_digit c = (c \<in> set ''0123456789'')"

definition digit_val :: "char \<Rightarrow> nat" where
  "digit_val c = of_char c - 48"

definition index_value :: "string \<Rightarrow> int" where
  "index_value s = foldl (\<lambda>n c. 10 * n + int (digit_val c)) 0 s"

definition is_array_index :: "string \<Rightarrow> bool" where
  "is_array_index k =
     (k \<noteq> [] \<and> list_all is_digit k \<and> (k = ''0'' \<or> hd k \<noteq> CHR ''0'')
      \<and> index_value k < 4294967295)"

fun insert_index :: "string \<Rightarrow> jsval \<Rightarrow> obj \<Rightarrow> obj" where
  "insert_index k v [] = [(k, v)]"
| "insert_index k v ((k', v') # ob) =
     (if is_array_index k' \<and> index_value k' < index_value k
      then (k', v') # insert_index k v ob
      else (k, v) # (k', v') # ob)"

text \<open>Defining or overwriting an own property: an existing property keeps its place, a
  new one takes its place in the enumeration order.\<close>

definition set_prop :: "string \<Rightarrow> jsval \<Rightarrow> obj \<Rightarrow> obj" where
  "set_prop k v ob =
     (if map_of ob k = None \<and> is_array_index k then insert_index k v ob
      else AList.update k v ob)"

definition get_prop :: "obj \<Rightarrow> string \<Rightarrow> jsval" where
  "get_prop ob k = (case map_of ob k of None \<Rightarrow> JUndefined | Some v \<Rightarrow> v)"

fun truthy :: "jsval \<Rightarrow> bool" where
  "truthy JUndefined = False"
| "truthy JNull = False"
| "truthy (JBool b) = b"
| "truthy (JNum n) = (n \<noteq> 0)"
| "truthy (JStr s) = (s \<noteq> [])"
| "truthy (JArr xs) = True"
| "truthy (JObj fs) = True"
| "truthy (JFun n s) = True"

fun is_object :: "jsval \<Rightarrow> bool" where
  "is_object (JArr xs) = True"
| "is_object (JObj fs) = True"
| "is_object (JFun n s) = True"
| "is_object v = False"

text \<open>The assignment \<^verbatim>\<open>output[nextKey] = v\<close> on an object created by \<^verbatim>\<open>{}\<close>. The
  name \<^verbatim>\<open>__proto__\<close> is an accessor of the standard prototype: assigning an object or
  \<^verbatim>\<open>null\<close> replaces the prototype of the output object, assigning anything else does
  nothing; no own property is created either way.\<close>

definition store :: "string \<Rightarrow> jsval \<Rightarrow> obj \<Rightarrow> obj outcome" where
  "store k v ob =
     (if k = ''__proto__''
      then (if is_object v \<or> v = JNull then Opaque else Returns ob)
      else Returns (set_prop k v ob))"

text \<open>\<^verbatim>\<open>v.length\<close>, \<^verbatim>\<open>v.constructor\<close>, \<^verbatim>\<open>v.call\<close> and \<^verbatim>\<open>v.apply\<close>, the properties
  the code reads off arbitrary values. An inherited method is represented by a function
  value with an opaque text. The code reads them off truthy values only.\<close>

datatype field = Flength | Fconstructor | Fcall | Fapply

fun field_name :: "field \<Rightarrow> string" where
  "field_name Flength = ''length''"
| "field_name Fconstructor = ''constructor''"
| "field_name Fcall = ''call''"
| "field_name Fapply = ''apply''"

definition native :: jsval where
  "native = JFun 0 ''function () { [native code] }''"

fun member :: "jsval \<Rightarrow> field \<Rightarrow> jsval" where
  "member (JStr s) f =
     (case f of Flength \<Rightarrow> JNum (int (length s)) | Fconstructor \<Rightarrow> native | _ \<Rightarrow> JUndefined)"
| "member (JArr xs) f =
     (case f of Flength \<Rightarrow> JNum (int (length xs)) | Fconstructor \<Rightarrow> native | _ \<Rightarrow> JUndefined)"
| "member (JObj fs) f =
     (case map_of fs (field_name f) of
        Some v \<Rightarrow> v
      | None \<Rightarrow> (case f of Fconstructor \<Rightarrow> native | _ \<Rightarrow> JUndefined))"
| "member (JFun n s) f = (case f of Flength \<Rightarrow> JNum (int n) | _ \<Rightarrow> native)"
| "member (JBool b) f = (case f of Fconstructor \<Rightarrow> native | _ \<Rightarrow> JUndefined)"
| "member (JNum n) f = (case f of Fconstructor \<Rightarrow> native | _ \<Rightarrow> JUndefined)"
| "member JUndefined f = JUndefined"
| "member JNull f = JUndefined"

section \<open>The options resolver\<close>

definition initFunctionName :: string where
  "initFunctionName = ''prebootInitFn''"

definition defaultOptions :: obj where
  "defaultOptions =
    [(''buffer'', JBool True),
     (''minify'', JBool True),
     (''replay'', JBool True),
     (''eventSelectors'', JArr
       [JObj [(''selector'', JStr ''input,textarea''),
              (''events'', JArr [JStr ''keypress'', JStr ''keyup'', JStr ''keydown'',
                                 JStr ''input'', JStr ''change''])],
        JObj [(''selector'', JStr ''select,option''),
              (''events'', JArr [JStr ''change''])],
        JObj [(''selector'', JStr ''input''),
              (''events'', JArr [JStr ''keyup'']),
              (''preventDefault'', JBool True),
              (''keyCodes'', JArr [JNum 13]),
              (''freeze'', JBool True)],
        JObj [(''selector'', JStr ''form''),
              (''events'', JArr [JStr ''submit'']),
              (''preventDefault'', JBool True),
              (''freeze'', JBool True)],
        JObj [(''selector'', JStr ''input,textarea''),
              (''events'', JArr [JStr ''focusin'', JStr ''focusout'', JStr ''mousedown'',
                                 JStr ''mouseup'']),
              (''replay'', JBool False)],
        JObj [(''selector'', JStr ''button''),
              (''events'', JArr [JStr ''click'']),
              (''preventDefault'', JBool True),
              (''freeze'', JBool True)]])]"

text \<open>The exported constant \<^verbatim>\<open>defaultOptions\<close> is an object every caller can reach:
  it is the object at reference 0, and a freshly loaded module has the heap \<open>init_heap\<close>.\<close>

definition defaultOptions_ref :: ref where
  "defaultOptions_ref = 0"

definition init_heap :: heap where
  "init_heap = [defaultOptions]"

text \<open>\<^verbatim>\<open>validateOptions\<close>: throws when \<^verbatim>\<open>!opts.appRoot || !opts.appRoot.length\<close>.\<close>

definition validateOptions :: "obj \<Rightarrow> unit outcome" where
  "validateOptions opts =
     (if \<not> truthy (get_prop opts ''appRoot'')
         \<or> \<not> truthy (member (get_prop opts ''appRoot'') Flength)
      then Throws ConfigurationError
      else Returns ())"

text \<open>The guard \<^verbatim>\<open>source.hasOwnProperty && source.hasOwnProperty(nextKey)\<close> for a name
  that \<^verbatim>\<open>for (const nextKey in source)\<close> enumerates. When the source has no own
  property \<^verbatim>\<open>hasOwnProperty\<close>, the inherited method answers, and it answers
  \<^verbatim>\<open>true\<close> because the enumerated names of a plain object are its own. An own
  property of that name takes its place: a falsy one makes the guard false, a function
  is called, and a call of anything else raises a \<^verbatim>\<open>TypeError\<close>.\<close>

definition guard :: "obj \<Rightarrow> bool outcome" where
  "guard source =
     (case map_of source ''hasOwnProperty'' of
        None \<Rightarrow> Returns True
      | Some f \<Rightarrow>
          if \<not> truthy f then Returns False
          else (case f of JFun n s \<Rightarrow> Opaque | _ \<Rightarrow> Throws TypeError))"

text \<open>\<^verbatim>\<open>assign(target, ...optionSets)\<close>. The inner loop runs over the enumerated
  properties of one source and copies those that pass the guard into the output object;
  the outer loop runs over the sources, skipping \<^verbatim>\<open>undefined\<close> and \<^verbatim>\<open>null\<close>. The
  output object is the target itself, mutated in place; a run that stops early leaves
  what it has copied so far.\<close>

fun copy_props :: "ref \<Rightarrow> obj \<Rightarrow> obj \<Rightarrow> heap \<Rightarrow> unit outcome \<times> heap" where
  "copy_props out source [] h = (Returns (), h)"
| "copy_props out source ((nextKey, v) # kvs) h =
     (case guard source of
        Throws e \<Rightarrow> (Throws e, h)
      | Opaque \<Rightarrow> (Opaque, h)
      | Returns False \<Rightarrow> copy_props out source kvs h
      | Returns True \<Rightarrow>
          (case store nextKey v (h ! out) of
             Throws e \<Rightarrow> (Throws e, h)
           | Opaque \<Rightarrow> (Opaque, h)
           | Returns ob \<Rightarrow> copy_props out source kvs (h[out := ob])))"

fun assign_loop :: "ref \<Rightarrow> ref option list \<Rightarrow> heap \<Rightarrow> unit outcome \<times> heap" where
  "assign_loop out [] h = (Returns (), h)"
| "assign_loop out (src # optionSets) h =
     (case src of
        None \<Rightarrow> assign_loop out optionSets h
      | Some s \<Rightarrow>
          (case deref h s of
             None \<Rightarrow> assign_loop out optionSets h
           | Some source \<Rightarrow>
               (case copy_props out source source h of
                  (Throws e, h') \<Rightarrow> (Throws e, h')
                | (Opaque, h') \<Rightarrow> (Opaque, h')
                | (Returns _, h') \<Rightarrow> assign_loop out optionSets h')))"

definition assign :: "ref option \<Rightarrow> ref option list \<Rightarrow> heap \<Rightarrow> ref outcome \<times> heap" where
  "assign target optionSets h =
     (case target of
        None \<Rightarrow> (Throws TargetTypeError, h)
      | Some t \<Rightarrow>
          (case deref h t of
             None \<Rightarrow> (Throws TargetTypeError, h)
           | Some _ \<Rightarrow>
               (case assign_loop t optionSets h of
                  (Throws e, h') \<Rightarrow> (Throws e, h')
                | (Opaque, h') \<Rightarrow> (Opaque, h')
                | (Returns _, h') \<Rightarrow> (Returns t, h'))))"

text \<open>The expression \<^verbatim>\<open>assign({}, defaultOptions, customOptions)\<close> that opens each
  public function: the target is an object allocated by the call itself.\<close>

definition merge_options :: "ref option \<Rightarrow> heap \<Rightarrow> ref outcome \<times> heap" where
  "merge_options customOptions h =
     (let (fresh, h1) = alloc [] h in
      assign (Some fresh) [Some defaultOptions_ref, customOptions] h1)"

text \<open>The first two statements of each public function:
  \<^verbatim>\<open>const opts = assign({}, defaultOptions, customOptions); validateOptions(opts);\<close>\<close>

definition resolve :: "ref option \<Rightarrow> heap \<Rightarrow> obj outcome \<times> heap" where
  "resolve customOptions h =
     (case merge_options customOptions h of
        (Throws e, h2) \<Rightarrow> (Throws e, h2)
      | (Opaque, h2) \<Rightarrow> (Opaque, h2)
      | (Returns r, h2) \<Rightarrow>
          (case validateOptions (h2 ! r) of
             Throws e \<Rightarrow> (Throws e, h2)
           | Opaque \<Rightarrow> (Opaque, h2)
           | Returns _ \<Rightarrow> (Returns (h2 ! r), h2)))"

section \<open>Strings\<close>

text \<open>The string operations of the runtime that the code calls, on lists of characters:
  \<^verbatim>\<open>indexOf\<close> (\<open>-1\<close> when the pattern does not occur), \<^verbatim>\<open>substring\<close> (indices
  clamped to the string, and swapped when the first exceeds the second),
  \<^verbatim>\<open>replace\<close> with a string pattern (the first occurrence only), \<^verbatim>\<open>replace\<close>
  with the global pattern \<^verbatim>\<open>/\\n/g\<close> (every backslash followed by \<^verbatim>\<open>n\<close>, left to
  right) and \<^verbatim>\<open>join\<close>.\<close>

definition LF :: char where "LF = CHR 0x0A"
definition BSL :: char where "BSL = CHR 0x5C"
definition DQ :: char where "DQ = CHR 0x22"

fun starts_with :: "string \<Rightarrow> string \<Rightarrow> bool" where
  "starts_with s [] = True"
| "starts_with [] (p # ps) = False"
| "starts_with (c # cs) (p # ps) = (c = p \<and> starts_with cs ps)"

fun indexOf :: "string \<Rightarrow> string \<Rightarrow> int" where
  "indexOf [] pat = (if pat = [] then 0 else -1)"
| "indexOf (c # cs) pat =
     (if starts_with (c # cs) pat then 0
      else (let i = indexOf cs pat in if i < 0 then -1 else i + 1))"

definition clamp_index :: "string \<Rightarrow> int \<Rightarrow> nat" where
  "clamp_index s i = nat (min (max i 0) (int (length s)))"

definition substring :: "string \<Rightarrow> int \<Rightarrow> int \<Rightarrow> string" where
  "substring s a b =
     (let lo = min (clamp_index s a) (clamp_index s b);
          hi = max (clamp_index s a) (clamp_index s b)
      in take (hi - lo) (drop lo s))"

definition substring_from :: "string \<Rightarrow> int \<Rightarrow> string" where
  "substring_from s a = drop (clamp_index s a) s"

definition replace_first :: "string \<Rightarrow> string \<Rightarrow> string \<Rightarrow> string" where
  "replace_first pat rep s =
     (let i = indexOf s pat
      in if i < 0 then s else take (nat i) s @ rep @ drop (nat i + length pat) s)"

fun replace_nl :: "string \<Rightarrow> string" where
  "replace_nl (c # d # cs) =
     (if c = BSL \<and> d = CHR ''n'' then LF # replace_nl cs else c # replace_nl (d # cs))"
| "replace_nl cs = cs"

fun join_js :: "string \<Rightarrow> string list \<Rightarrow> string" where
  "join_js sep [] = []"
| "join_js sep [x] = x"
| "join_js sep (x # y # ys) = x @ sep @ join_js sep (y # ys)"

section \<open>The structured-data encoder\<close>

text \<open>\<^verbatim>\<open>JSON.stringify(obj, replacer)\<close> as the language standard defines it. A string is
  quoted with \<^verbatim>\<open>"\<close>, \<^verbatim>\<open>\\<close> and the control characters escaped; a safe integer is
  written in decimal digits.\<close>

definition hex_digit :: "nat \<Rightarrow> char" where
  "hex_digit n = (''0123456789abcdef'') ! (n mod 16)"

definition escape_char :: "char \<Rightarrow> string" where
  "escape_char c =
     (if c = DQ then [BSL, DQ]
      else if c = BSL then [BSL, BSL]
      else if c = CHR 0x08 then [BSL, CHR ''b'']
      else if c = CHR 0x0C then [BSL, CHR ''f'']
      else if c = LF then [BSL, CHR ''n'']
      else if c = CHR 0x0D then [BSL, CHR ''r'']
      else if c = CHR 0x09 then [BSL, CHR ''t'']
      else if (of_char c :: nat) < 32
        then [BSL, CHR ''u'', CHR ''0'', CHR ''0'',
              hex_digit (of_char c div 16), hex_digit (of_char c)]
      else [c])"

definition escape :: "string \<Rightarrow> string" where
  "escape s = concat (map escape_char s)"

definition quote :: "string \<Rightarrow> string" where
  "quote s = DQ # escape s @ [DQ]"

fun show_nat :: "nat \<Rightarrow> string" where
  "show_nat n =
     (if n < 10 then [(''0123456789'') ! n]
      else show_nat (n div 10) @ [(''0123456789'') ! (n mod 10)])"

declare show_nat.simps [simp del]

definition show_int :: "int \<Rightarrow> string" where
  "show_int i = (if i < 0 then CHR ''-'' # show_nat (nat (- i)) else show_nat (nat i))"

definition safe_integer :: "int \<Rightarrow> bool" where
  "safe_integer i = (\<bar>i\<bar> \<le> 9007199254740991)"

section \<open>The function-aware serializer\<close>

definition FUNC_START :: string where
  "FUNC_START = ''START_FUNCTION_HERE''"

definition FUNC_STOP :: string where
  "FUNC_STOP = ''STOP_FUNCTION_HERE''"

text \<open>The test of the replacer,
  \<^verbatim>\<open>!!(value && value.constructor && value.call && value.apply)\<close>,
  and \<^verbatim>\<open>value.toString()\<close> for a value that passes it. Only functions and objects
  pass. A function answers with its text. An object that merely has truthy \<^verbatim>\<open>call\<close>
  and \<^verbatim>\<open>apply\<close> properties answers \<^verbatim>\<open>[object Object]\<close> through the inherited
  method, unless it has an own property \<^verbatim>\<open>toString\<close>: a function there is called,
  and a call of anything else raises a \<^verbatim>\<open>TypeError\<close>.\<close>

definition is_function :: "jsval \<Rightarrow> bool" where
  "is_function v =
     (truthy v \<and> truthy (member v Fconstructor)
      \<and> truthy (member v Fcall) \<and> truthy (member v Fapply))"

fun toString :: "jsval \<Rightarrow> string outcome" where
  "toString (JFun n s) = Returns s"
| "toString (JObj fs) =
     (case map_of fs ''toString'' of
        None \<Rightarrow> Returns ''[object Object]''
      | Some (JFun n s) \<Rightarrow> Opaque
      | Some _ \<Rightarrow> Throws TypeError)"
| "toString v = Opaque"

definition replacer :: "jsval \<Rightarrow> jsval outcome" where
  "replacer v =
     (if is_function v
      then (case toString v of
              Throws e \<Rightarrow> Throws e
            | Opaque \<Rightarrow> Opaque
            | Returns s \<Rightarrow> Returns (JStr (FUNC_START @ s @ FUNC_STOP)))
      else Returns v)"

text \<open>The encoder itself. Before the replacer sees a value, the encoder looks for a
  method \<^verbatim>\<open>toJSON\<close> on it and calls it when it is a function. The members of an array
  and the properties of an object are encoded from left to right, and the first one that
  does not return ends the run. A property whose value encodes to nothing
  (\<^verbatim>\<open>undefined\<close>) is left out of an object and written \<^verbatim>\<open>null\<close> in an array.\<close>

definition calls_toJSON :: "jsval \<Rightarrow> bool" where
  "calls_toJSON v =
     (case v of
        JObj fs \<Rightarrow> (case map_of fs ''toJSON'' of Some (JFun n s) \<Rightarrow> True | _ \<Rightarrow> False)
      | _ \<Rightarrow> False)"

fun sequence :: "'a outcome list \<Rightarrow> 'a list outcome" where
  "sequence [] = Returns []"
| "sequence (x # xs) =
     (case x of
        Throws e \<Rightarrow> Throws e
      | Opaque \<Rightarrow> Opaque
      | Returns a \<Rightarrow>
          (case sequence xs of
             Throws e \<Rightarrow> Throws e
           | Opaque \<Rightarrow> Opaque
           | Returns as \<Rightarrow> Returns (a # as)))"

definition element_text :: "string option \<Rightarrow> string" where
  "element_text t = (case t of None \<Rightarrow> ''null'' | Some s \<Rightarrow> s)"

definition member_text :: "string \<times> jsval \<Rightarrow> string option \<Rightarrow> string list" where
  "member_text kx t = (case t of None \<Rightarrow> [] | Some s \<Rightarrow> [quote (fst kx) @ '':'' @ s])"

lemma replacer_JArr: "replacer v = Returns (JArr xs) \<Longrightarrow> v = JArr xs"
  by (simp add: replacer_def split: if_splits outcome.splits)

lemma replacer_JObj: "replacer v = Returns (JObj fs) \<Longrightarrow> v = JObj fs"
  by (simp add: replacer_def split: if_splits outcome.splits)

lemma size_member_arr: "x \<in> set xs \<Longrightarrow> size x < Suc (size_list size xs)"
  by (induction xs) auto

lemma size_member_obj: "(k, x) \<in> set fs \<Longrightarrow> size x < Suc (size_list (size_prod (\<lambda>_. 0) size) fs)"
  by (induction fs) auto

function serialize_property :: "jsval \<Rightarrow> string option outcome" where
  "serialize_property v =
     (if calls_toJSON v then Opaque
      else (case replacer v of
        Throws e \<Rightarrow> Throws e
      | Opaque \<Rightarrow> Opaque
      | Returns JUndefined \<Rightarrow> Returns None
      | Returns JNull \<Rightarrow> Returns (Some ''null'')
      | Returns (JBool b) \<Rightarrow> Returns (Some (if b then ''true'' else ''false''))
      | Returns (JNum n) \<Rightarrow> (if safe_integer n then Returns (Some (show_int n)) else Opaque)
      | Returns (JStr s) \<Rightarrow> Returns (Some (quote s))
      | Returns (JArr xs) \<Rightarrow>
          (case sequence (map (\<lambda>x. serialize_property x) xs) of
             Throws e \<Rightarrow> Throws e
           | Opaque \<Rightarrow> Opaque
           | Returns ts \<Rightarrow>
               Returns (Some (''['' @ join_js '','' (map element_text ts) @ '']'')))
      | Returns (JObj fs) \<Rightarrow>
          (case sequence (map (\<lambda>kx. serialize_property (snd kx)) fs) of
             Throws e \<Rightarrow> Throws e
           | Opaque \<Rightarrow> Opaque
           | Returns ts \<Rightarrow>
               Returns (Some (''{'' @ join_js '','' (concat (map2 member_text fs ts)) @ ''}'')))
      | Returns (JFun n s) \<Rightarrow> Returns None))"
  by pat_completeness auto
termination
proof (relation "measure size")
  show "wf (measure size)" by simp
next
  fix v x1 xs x
  assume "replacer v = Returns x1" "x1 = JArr xs" "x \<in> set xs"
  then show "(x, v) \<in> measure size"
    using replacer_JArr size_member_arr by fastforce
next
  fix v x1 fs kx
  assume "replacer v = Returns x1" "x1 = JObj fs" "kx \<in> set fs"
  then show "(snd kx, v) \<in> measure size"
    using replacer_JObj size_member_obj [of "fst kx" "snd kx" fs] by fastforce
qed

declare serialize_property.simps [simp del]

definition JSON_stringify :: "jsval \<Rightarrow> string option outcome" where
  "JSON_stringify obj = serialize_property obj"

text \<open>The loop of \<^verbatim>\<open>stringifyWithFunctions\<close>. Its state is the text and the index of
  the first start marker. The runtime bounds the length of a string: building a longer
  one raises the \<^verbatim>\<open>RangeError\<close>. The bound is a parameter of the model
  (\<open>maxLength\<close>). Nothing else bounds the number of rounds, so the loop is a partial
  function: \<open>None\<close> stands for a run that never returns.\<close>

partial_function (option) splice_loop :: "int \<Rightarrow> string \<Rightarrow> int \<Rightarrow> string outcome option" where
  "splice_loop maxLength str startFuncIdx =
     (if startFuncIdx \<ge> 0 then
        (let stopFuncIdx = indexOf str FUNC_STOP;
             fn = substring str (startFuncIdx + int (length FUNC_START)) stopFuncIdx;
             fn = replace_nl fn;
             str = substring str 0 (startFuncIdx - 1) @ fn
                   @ substring_from str (stopFuncIdx + int (length FUNC_STOP) + 1)
         in if maxLength < int (length str) then Some (Throws RangeError)
            else splice_loop maxLength str (indexOf str FUNC_START))
      else Some (Returns str))"

declare splice_loop.simps [code]

text \<open>When \<^verbatim>\<open>JSON.stringify\<close> returns \<^verbatim>\<open>undefined\<close>, the call \<^verbatim>\<open>str.indexOf\<close>
  raises a \<^verbatim>\<open>TypeError\<close>; an encoding longer than the bound is not built.\<close>

definition stringifyWithFunctions :: "int \<Rightarrow> jsval \<Rightarrow> string outcome option" where
  "stringifyWithFunctions maxLength obj =
     (case JSON_stringify obj of
        Throws e \<Rightarrow> Some (Throws e)
      | Opaque \<Rightarrow> Some Opaque
      | Returns None \<Rightarrow> Some (Throws TypeError)
      | Returns (Some str) \<Rightarrow>
          if maxLength < int (length str) then Some (Throws RangeError)
          else splice_loop maxLength str (indexOf str FUNC_START))"

section \<open>The code assembler\<close>

text \<open>The procedures of the event recorder and the node-key helper come from other
  modules; the assembler only reads their text (\<^verbatim>\<open>toString()\<close>). They are a parameter:
  the texts of the seven members of the registry \<^verbatim>\<open>eventRecorder\<close>, the text of
  \<^verbatim>\<open>init\<close> and the text of \<^verbatim>\<open>getNodeKeyForPreboot\<close>. The registry is an object
  literal, so its members are enumerated as written.\<close>

record recorder =
  start :: string
  createOverlay :: string
  getAppRoots :: string
  handleEvents :: string
  createListenHandler :: string
  getSelection :: string
  createBuffer :: string
  init :: string
  getNodeKeyForPreboot :: string

definition eventRecorder :: "recorder \<Rightarrow> (string \<times> string) list" where
  "eventRecorder env =
     [(''start'', start env),
      (''createOverlay'', createOverlay env),
      (''getAppRoots'', getAppRoots env),
      (''handleEvents'', handleEvents env),
      (''createListenHandler'', createListenHandler env),
      (''getSelection'', getSelection env),
      (''createBuffer'', createBuffer env)]"

fun push_cleaned :: "(string \<times> string) list \<Rightarrow> string list \<Rightarrow> string list" where
  "push_cleaned [] eventRecorderFunctions = eventRecorderFunctions"
| "push_cleaned ((funcName, fn) # members) eventRecorderFunctions =
     push_cleaned members (eventRecorderFunctions @ [replace_first ''common_1.'' [] fn])"

definition getEventRecorderCode :: "recorder \<Rightarrow> string" where
  "getEventRecorderCode env =
     (let eventRecorderFunctions = push_cleaned (eventRecorder env) [];
          eventRecorderFunctions = eventRecorderFunctions @ [getNodeKeyForPreboot env]
      in [LF, LF] @ join_js [LF, LF] eventRecorderFunctions @ [LF, LF])"

definition definition_text :: "recorder \<Rightarrow> string" where
  "definition_text env =
     ''var '' @ initFunctionName @ '' = (function() {'' @ [LF] @
     ''      '' @ getEventRecorderCode env @ [LF] @
     ''      return ('' @ replace_first ''common_1.'' [] (init env) @ '');'' @ [LF] @
     ''    })();''"

definition getInlinePrebootCodeDefinition ::
    "recorder \<Rightarrow> ref option \<Rightarrow> heap \<Rightarrow> string outcome \<times> heap" where
  "getInlinePrebootCodeDefinition env customOptions h =
     (case resolve customOptions h of
        (Throws e, h') \<Rightarrow> (Throws e, h')
      | (Opaque, h') \<Rightarrow> (Opaque, h')
      | (Returns opts, h') \<Rightarrow> (Returns (definition_text env), h'))"

definition getInlinePrebootCodeInvocation ::
    "int \<Rightarrow> ref option \<Rightarrow> heap \<Rightarrow> (string outcome \<times> heap) option" where
  "getInlinePrebootCodeInvocation maxLength customOptions h =
     (case resolve customOptions h of
        (Throws e, h') \<Rightarrow> Some (Throws e, h')
      | (Opaque, h') \<Rightarrow> Some (Opaque, h')
      | (Returns opts, h') \<Rightarrow>
          (case stringifyWithFunctions maxLength (JObj opts) of
             None \<Rightarrow> None
           | Some (Throws e) \<Rightarrow> Some (Throws e, h')
           | Some Opaque \<Rightarrow> Some (Opaque, h')
           | Some (Returns optsStr) \<Rightarrow>
               Some (Returns (initFunctionName @ ''('' @ optsStr @ '');''), h')))"

definition getInlinePrebootCode ::
    "int \<Rightarrow> recorder \<Rightarrow> ref option \<Rightarrow> heap \<Rightarrow> (string outcome \<times> heap) option" where
  "getInlinePrebootCode maxLength env customOptions h =
     (case getInlinePrebootCodeDefinition env customOptions h of
        (Throws e, h1) \<Rightarrow> Some (Throws e, h1)
      | (Opaque, h1) \<Rightarrow> Some (Opaque, h1)
      | (Returns inlineCodeDefinition, h1) \<Rightarrow>
          (case getInlinePrebootCodeInvocation maxLength customOptions h1 of
             None \<Rightarrow> None
           | Some (Throws e, h2) \<Rightarrow> Some (Throws e, h2)
           | Some (Opaque, h2) \<Rightarrow> Some (Opaque, h2)
           | Some (Returns inlineCodeInvocation, h2) \<Rightarrow>
               Some (Returns (''(function() {'' @ [LF] @
                              ''      '' @ inlineCodeDefinition @ [LF] @
                              ''      '' @ inlineCodeInvocation @ [LF] @
                              ''    })()''), h2)))"

section \<open>Auxiliary notions for the proofs\<close>

text \<open>The merge on objects alone. \<open>copy_into\<close> is the inner loop of \<^verbatim>\<open>assign\<close> on the
  output object, \<open>merge_into\<close> the outer loop over the sources that are objects, and
  \<open>sources\<close> lists the objects that \<^verbatim>\<open>assign({}, defaultOptions, customOptions)\<close>
  reads. \<open>copy_all\<close> is what a source without surprises contributes: each of its
  properties, set in turn. A source is plain when it has no own property named
  \<^verbatim>\<open>hasOwnProperty\<close> or \<^verbatim>\<open>__proto__\<close>.\<close>

fun copy_into :: "obj \<Rightarrow> obj \<Rightarrow> obj \<Rightarrow> unit outcome \<times> obj" where
  "copy_into source [] ob = (Returns (), ob)"
| "copy_into source ((k, v) # kvs) ob =
     (case guard source of
        Throws e \<Rightarrow> (Throws e, ob)
      | Opaque \<Rightarrow> (Opaque, ob)
      | Returns False \<Rightarrow> copy_into source kvs ob
      | Returns True \<Rightarrow>
          (case store k v ob of
             Throws e \<Rightarrow> (Throws e, ob)
           | Opaque \<Rightarrow> (Opaque, ob)
           | Returns ob' \<Rightarrow> copy_into source kvs ob'))"

fun merge_into :: "obj list \<Rightarrow> obj \<Rightarrow> unit outcome \<times> obj" where
  "merge_into [] ob = (Returns (), ob)"
| "merge_into (source # rest) ob =
     (case copy_into source source ob of
        (Throws e, ob') \<Rightarrow> (Throws e, ob')
      | (Opaque, ob') \<Rightarrow> (Opaque, ob')
      | (Returns _, ob') \<Rightarrow> merge_into rest ob')"

definition sources :: "ref option \<Rightarrow> heap \<Rightarrow> obj list" where
  "sources customOptions h =
     h ! defaultOptions_ref # (case customOptions of None \<Rightarrow> [] | Some c \<Rightarrow> [h ! c])"

definition copy_all :: "obj \<Rightarrow> obj \<Rightarrow> obj" where
  "copy_all source ob = fold (\<lambda>(k, v). set_prop k v) source ob"

definition plain_source :: "obj \<Rightarrow> bool" where
  "plain_source source =
     (map_of source ''hasOwnProperty'' = None \<and> map_of source ''__proto__'' = None)"

definition plain_sources :: "ref option \<Rightarrow> heap \<Rightarrow> bool" where
  "plain_sources customOptions h = list_all plain_source (sources customOptions h)"

definition merged_object :: "ref option \<Rightarrow> heap \<Rightarrow> obj" where
  "merged_object customOptions h = snd (merge_options customOptions h) ! length h"

text \<open>The outcome of the two statements that open each public function, the merge and
  the validation, as a function of the objects read.\<close>

definition prepared :: "ref option \<Rightarrow> heap \<Rightarrow> unit outcome" where
  "prepared customOptions h =
     (case fst (merge_into (sources customOptions h) []) of
        Throws e \<Rightarrow> Throws e
      | Opaque \<Rightarrow> Opaque
      | Returns _ \<Rightarrow> validateOptions (snd (merge_into (sources customOptions h) [])))"

text \<open>A call is well formed when the heap holds the defaults object and the argument,
  when given, refers to an object of the heap.\<close>

definition valid_call :: "ref option \<Rightarrow> heap \<Rightarrow> bool" where
  "valid_call customOptions h =
     (defaultOptions_ref < length h \<and>
      (case customOptions of None \<Rightarrow> True | Some c \<Rightarrow> c < length h))"

text \<open>A bound on the length of strings used in the examples: the one of a widespread
  engine, \<open>2^29 - 24\<close>.\<close>

definition engine_limit :: int where
  "engine_limit = 536870888"

text \<open>The declared type of \<^verbatim>\<open>appRoot\<close> is a selector string or an array of them; an
  absent, \<^verbatim>\<open>undefined\<close> or \<^verbatim>\<open>null\<close> field counts as absent. The selector is empty when
  it is the empty string or the empty array.\<close>

fun selector_typed :: "jsval \<Rightarrow> bool" where
  "selector_typed (JStr s) = True"
| "selector_typed (JArr xs) = True"
| "selector_typed JUndefined = True"
| "selector_typed JNull = True"
| "selector_typed v = False"

fun selector_empty :: "jsval \<Rightarrow> bool" where
  "selector_empty (JStr s) = (s = [])"
| "selector_empty (JArr xs) = (xs = [])"
| "selector_empty JUndefined = True"
| "selector_empty JNull = True"
| "selector_empty v = False"

definition appRoot_typed :: "obj \<Rightarrow> bool" where
  "appRoot_typed opts = (case map_of opts ''appRoot'' of None \<Rightarrow> True | Some v \<Rightarrow> selector_typed v)"

definition appRoot_missing :: "obj \<Rightarrow> bool" where
  "appRoot_missing opts = (case map_of opts ''appRoot'' of None \<Rightarrow> True | Some v \<Rightarrow> selector_empty v)"

text \<open>The outer wrapper of the combined block.\<close>

definition wrap_combined :: "string \<Rightarrow> string \<Rightarrow> string" where
  "wrap_combined d i =
     ''(function() {'' @ [LF] @ ''      '' @ d @ [LF] @ ''      '' @ i @ [LF] @ ''    })()''"


text \<open>The example configuration of the specification, and a recorder whose member
  \<^verbatim>\<open>createListenHandler\<close> refers to the module \<^verbatim>\<open>common_1\<close> twice.\<close>

definition example_options :: obj where
  "example_options =
     [(''appRoot'', JStr ''app''), (''buffer'', JBool True),
      (''eventSelectors'', JArr [JObj [(''selector'', JStr ''input''),
                                       (''events'', JArr [JStr ''change''])]])]"

definition example_recorder :: recorder where
  "example_recorder =
     \<lparr>start = ''function start(d, w) { common_1.a(d, w); }'',
      createOverlay = ''function createOverlay(d) {}'',
      getAppRoots = ''function getAppRoots(d, o) { return []; }'',
      handleEvents = ''function handleEvents(d, p, a, s) {}'',
      createListenHandler =
        ''function createListenHandler(d, p, s, a, n) { return common_1.f(common_1.g(n)); }'',
      getSelection = ''function getSelection(n) { return {}; }'',
      createBuffer = ''function createBuffer(r) { return r; }'',
      init = ''function init(opts) { common_1.go(opts); }'',
      getNodeKeyForPreboot = ''function getNodeKeyForPreboot(n) { return n.id; }''\<rparr>"


text \<open>Removing the first occurrence of a pattern from a text, by recursion on the text.\<close>

fun strip_first :: "string \<Rightarrow> string \<Rightarrow> string" where
  "strip_first pat [] = []"
| "strip_first pat (c # cs) =
     (if prefix pat (c # cs) then drop (length pat) (c # cs) else c # strip_first pat cs)"


text \<open>A pattern in which the first character does not occur again: no proper suffix of it
  is a prefix of it.\<close>

definition unbordered :: "string \<Rightarrow> bool" where
  "unbordered pat = (pat \<noteq> [] \<and> hd pat \<notin> set (tl pat))"


text \<open>The text that \<^verbatim>\<open>JSON.stringify\<close> hands to the loop is a sequence of segments:
  literal text, and quoted strings made of the start marker, the encoded text of a
  function and the stop marker. \<open>raws\<close> is that text; \<open>spliceds\<close> is the text in which
  each function segment is replaced by its text with \<^verbatim>\<open>\\n\<close> turned into line
  breaks.\<close>

datatype seg = Lit string | Fn string

fun raw :: "seg \<Rightarrow> string" where
  "raw (Lit s) = s"
| "raw (Fn e) = DQ # FUNC_START @ e @ FUNC_STOP @ [DQ]"

fun spliced :: "seg \<Rightarrow> string" where
  "spliced (Lit s) = s"
| "spliced (Fn e) = replace_nl e"

definition raws :: "seg list \<Rightarrow> string" where
  "raws ss = concat (map raw ss)"

definition spliceds :: "seg list \<Rightarrow> string" where
  "spliceds ss = concat (map spliced ss)"

text \<open>A text is marker free when neither marker occurs in it: \<^verbatim>\<open>indexOf\<close> returns
  \<open>-1\<close> for both.\<close>

definition marker_free :: "string \<Rightarrow> bool" where
  "marker_free s = (indexOf s FUNC_START < 0 \<and> indexOf s FUNC_STOP < 0)"


text \<open>The encoder when nothing interferes: the text \<^verbatim>\<open>JSON.stringify\<close> returns for
  a value in which no \<^verbatim>\<open>toJSON\<close> is called and every function-like value answers
  \<^verbatim>\<open>toString()\<close> with \<open>fn_text\<close>. A value is tame when that is the case and its
  numbers are safe integers.\<close>

fun fn_text :: "jsval \<Rightarrow> string" where
  "fn_text (JFun n s) = s"
| "fn_text v = ''[object Object]''"

definition marked :: "jsval \<Rightarrow> jsval" where
  "marked v = (if is_function v then JStr (FUNC_START @ fn_text v @ FUNC_STOP) else v)"

lemma marked_JArr: "marked v = JArr xs \<Longrightarrow> v = JArr xs"
  by (simp add: marked_def split: if_splits)

lemma marked_JObj: "marked v = JObj fs \<Longrightarrow> v = JObj fs"
  by (simp add: marked_def split: if_splits)

function marked_text :: "jsval \<Rightarrow> string option" where
  "marked_text v =
     (case marked v of
        JUndefined \<Rightarrow> None
      | JNull \<Rightarrow> Some ''null''
      | JBool b \<Rightarrow> Some (if b then ''true'' else ''false'')
      | JNum n \<Rightarrow> Some (show_int n)
      | JStr s \<Rightarrow> Some (quote s)
      | JArr xs \<Rightarrow>
          Some (''['' @ join_js '',''
                  (map (\<lambda>x. case marked_text x of None \<Rightarrow> ''null'' | Some t \<Rightarrow> t) xs)
                @ '']'')
      | JObj fs \<Rightarrow>
          Some (''{'' @ join_js '',''
                  (concat (map (\<lambda>kx. case marked_text (snd kx) of
                                        None \<Rightarrow> []
                                      | Some t \<Rightarrow> [quote (fst kx) @ '':'' @ t]) fs))
                @ ''}'')
      | JFun n s \<Rightarrow> None)"
  by pat_completeness auto
termination
proof (relation "measure size")
  show "wf (measure size)" by simp
next
  fix v xs x
  assume "marked v = JArr xs" "x \<in> set xs"
  then show "(x, v) \<in> measure size"
    using marked_JArr size_member_arr by fastforce
next
  fix v fs kx
  assume "marked v = JObj fs" "kx \<in> set fs"
  then show "(snd kx, v) \<in> measure size"
    using marked_JObj size_member_obj [of "fst kx" "snd kx" fs] by fastforce
qed

declare marked_text.simps [simp del]

function tame :: "jsval \<Rightarrow> bool" where
  "tame v =
     (\<not> calls_toJSON v \<and>
      (if is_function v
       then (case v of JObj fs \<Rightarrow> map_of fs ''toString'' = None | _ \<Rightarrow> True)
       else (case v of
          JNum n \<Rightarrow> safe_integer n
        | JArr xs \<Rightarrow> (\<forall>x \<in> set xs. tame x)
        | JObj fs \<Rightarrow> (\<forall>kx \<in> set fs. tame (snd kx))
        | _ \<Rightarrow> True)))"
  by pat_completeness auto
termination
proof (relation "measure size")
  show "wf (measure size)" by simp
next
  fix v xs x
  assume "v = JArr xs" "x \<in> set xs"
  then show "(x, v) \<in> measure size"
    using size_member_arr by fastforce
next
  fix v fs kx
  assume "v = JObj fs" "kx \<in> set fs"
  then show "(snd kx, v) \<in> measure size"
    using size_member_obj [of "fst kx" "snd kx" fs] by fastforce
qed

declare tame.simps [simp del]




text \<open>The encoding of a value fits when it is not longer than the bound. The texts that
  the public functions build around it are longer than their parts, so a configuration
  fits an emission when the longest text of that emission does: the invocation statement
  around the encoding, or the combined block around the definition block and that
  statement.\<close>

definition fits :: "int \<Rightarrow> jsval \<Rightarrow> bool" where
  "fits maxLength v =
     (case marked_text v of None \<Rightarrow> True | Some r \<Rightarrow> int (length r) \<le> maxLength)"


definition combined_fits :: "int \<Rightarrow> recorder \<Rightarrow> jsval \<Rightarrow> bool" where
  "combined_fits maxLength env v =
     (case marked_text v of
        None \<Rightarrow> True
      | Some r \<Rightarrow>
          int (length (wrap_combined (definition_text env)
                         (initFunctionName @ ''('' @ r @ '');''))) \<le> maxLength)"


text \<open>The text the serializer is meant to return: the encoding of the value in which a
  function-like value stands as its own text (encoded, then with \<^verbatim>\<open>\\n\<close> turned back
  into line breaks) instead of a quoted string. \<open>fn_texts\<close> lists the texts of the
  function-like values the encoder meets.\<close>

function render :: "jsval \<Rightarrow> string option" where
  "render v =
     (if is_function v then Some (replace_nl (escape (fn_text v)))
      else (case v of
        JUndefined \<Rightarrow> None
      | JNull \<Rightarrow> Some ''null''
      | JBool b \<Rightarrow> Some (if b then ''true'' else ''false'')
      | JNum n \<Rightarrow> Some (show_int n)
      | JStr s \<Rightarrow> Some (quote s)
      | JArr xs \<Rightarrow>
          Some (''['' @ join_js '',''
                  (map (\<lambda>x. case render x of None \<Rightarrow> ''null'' | Some t \<Rightarrow> t) xs)
                @ '']'')
      | JObj fs \<Rightarrow>
          Some (''{'' @ join_js '',''
                  (concat (map (\<lambda>kx. case render (snd kx) of
                                        None \<Rightarrow> []
                                      | Some t \<Rightarrow> [quote (fst kx) @ '':'' @ t]) fs))
                @ ''}'')
      | JFun n s \<Rightarrow> None))"
  by pat_completeness auto
termination
proof (relation "measure size")
  show "wf (measure size)" by simp
next
  fix v xs x
  assume "v = JArr xs" "x \<in> set xs"
  then show "(x, v) \<in> measure size"
    using size_member_arr by fastforce
next
  fix v fs kx
  assume "v = JObj fs" "kx \<in> set fs"
  then show "(snd kx, v) \<in> measure size"
    using size_member_obj [of "fst kx" "snd kx" fs] by fastforce
qed

declare render.simps [simp del]

function fn_texts :: "jsval \<Rightarrow> string list" where
  "fn_texts v =
     (if is_function v then [fn_text v]
      else (case v of
        JArr xs \<Rightarrow> concat (map fn_texts xs)
      | JObj fs \<Rightarrow> concat (map (\<lambda>kx. fn_texts (snd kx)) fs)
      | _ \<Rightarrow> []))"
  by pat_completeness auto
termination
proof (relation "measure size")
  show "wf (measure size)" by simp
next
  fix v xs x
  assume "v = JArr xs" "x \<in> set xs"
  then show "(x, v) \<in> measure size"
    using size_member_arr by fastforce
next
  fix v fs kx
  assume "v = JObj fs" "kx \<in> set fs"
  then show "(snd kx, v) \<in> measure size"
    using size_member_obj [of "fst kx" "snd kx" fs] by fastforce
qed

declare fn_texts.simps [simp del]


definition seg_rel :: "string set \<Rightarrow> string \<Rightarrow> string \<Rightarrow> bool" where
  "seg_rel F r t = (\<exists>ss. r = raws ss \<and> t = spliceds ss \<and> (\<forall>e. Fn e \<in> set ss \<longrightarrow> e \<in> F))"


text \<open>The characters of the two markers.\<close>

definition marker_chars :: "char set" where
  "marker_chars = set FUNC_START \<union> set FUNC_STOP"


text \<open>The encoded text of a function in which only the escaped line breaks are turned
  back: every character is written as the encoder writes it, except a line break, which
  is written as itself. A text has no backslash followed by \<^verbatim>\<open>n\<close> when no two
  neighbouring characters are these; a text is plain when the encoder escapes none of its
  characters but line breaks.\<close>

definition keep_escaped :: "string \<Rightarrow> string" where
  "keep_escaped s = concat (map (\<lambda>c. if c = LF then [LF] else escape_char c) s)"

fun no_bsl_n :: "string \<Rightarrow> bool" where
  "no_bsl_n (c # d # cs) = (\<not> (c = BSL \<and> d = CHR ''n'') \<and> no_bsl_n (d # cs))"
| "no_bsl_n cs = True"

definition plain_src :: "string \<Rightarrow> bool" where
  "plain_src s = (\<forall>c \<in> set s. c = LF \<or> escape_char c = [c])"


text \<open>A value is clean when no string, property name or function text that the encoder
  writes contains a marker.\<close>

function clean :: "jsval \<Rightarrow> bool" where
  "clean v =
     (if is_function v then marker_free (fn_text v)
      else (case v of
        JStr s \<Rightarrow> marker_free s
      | JArr xs \<Rightarrow> (\<forall>x \<in> set xs. clean x)
      | JObj fs \<Rightarrow> (\<forall>kx \<in> set fs. marker_free (fst kx) \<and> clean (snd kx))
      | _ \<Rightarrow> True))"
  by pat_completeness auto
termination
proof (relation "measure size")
  show "wf (measure size)" by simp
next
  fix v xs x
  assume "v = JArr xs" "x \<in> set xs"
  then show "(x, v) \<in> measure size"
    using size_member_arr by fastforce
next
  fix v fs kx
  assume "v = JObj fs" "kx \<in> set fs"
  then show "(snd kx, v) \<in> measure size"
    using size_member_obj [of "fst kx" "snd kx" fs] by fastforce
qed

declare clean.simps [simp del]


text \<open>A text that the loop only makes longer: the start marker occurs in it, and
  neither the letter \<^verbatim>\<open>P\<close> (so the stop marker does not occur) nor a backslash.\<close>

definition stuck :: "string \<Rightarrow> bool" where
  "stuck s = (CHR ''P'' \<notin> set s \<and> BSL \<notin> set s \<and> indexOf s FUNC_START \<ge> 0)"


text \<open>The members of an object as the intended text writes them.\<close>

definition render_members :: "obj \<Rightarrow> string list" where
  "render_members fs =
     concat (map (\<lambda>kx. case render (snd kx) of
                          None \<Rightarrow> []
                        | Some t \<Rightarrow> [quote (fst kx) @ '':'' @ t]) fs)"

text \<open>Function texts used as examples: one with a string literal in double quotes, one
  with a regular expression that matches a line break, two plain ones.\<close>

definition quoting_fn :: string where
  "quoting_fn = ''function (e) {'' @ [LF] @ ''  return e.type === '' @ [DQ] @ ''click''
                @ [DQ] @ '';'' @ [LF] @ ''}''"

definition regex_fn :: string where
  "regex_fn = ''function (s) { return s.split(/'' @ [BSL] @ ''n/); }''"

definition plain_fn1 :: string where
  "plain_fn1 = ''function (node) {'' @ [LF] @ ''  return node.id;'' @ [LF] @ ''}''"

definition plain_fn2 :: string where
  "plain_fn2 = ''function () { return 1; }''"

text \<open>Example configurations: two plain functions among literal fields, a function with
  a quoted string literal, and an override whose selector is the start marker.\<close>

definition two_fn_config :: jsval where
  "two_fn_config =
     JObj ([(''appRoot'', JStr ''app'')] @ (''action'', JFun 1 plain_fn1)
           # [(''buffer'', JBool True)] @ (''done'', JFun 0 plain_fn2) # [])"

definition quoting_config :: jsval where
  "quoting_config =
     JObj [(''appRoot'', JStr ''app''), (''action'', JFun 1 quoting_fn),
           (''done'', JFun 0 plain_fn2)]"

definition trap_options :: obj where
  "trap_options = [(''appRoot'', JStr ''START_FUNCTION_HERE'')]"


text \<open>Overrides used as examples: a selector that is a number, an own property
  \<^verbatim>\<open>hasOwnProperty\<close> that is falsy, and one that is truthy but no function.\<close>

definition numeric_root_options :: obj where
  "numeric_root_options = [(''appRoot'', JNum 5)]"


definition uncallable_options :: obj where
  "uncallable_options = [(''hasOwnProperty'', JNum 1), (''appRoot'', JStr ''app'')]"

section \<open>Searching in strings\<close>

lemma starts_with_prefix: "starts_with s pat = prefix pat s"
  by (induction s pat rule: starts_with.induct) auto

lemma indexOf_ge: "- 1 \<le> indexOf s pat"
  by (induction s) (auto simp: Let_def)

lemma indexOf_neg_iff: "(indexOf s pat < 0) = (\<not> sublist pat s)"
proof (induction s)
  case Nil
  show ?case by simp
next
  case (Cons c cs)
  have "0 \<le> indexOf cs pat + 1" using indexOf_ge [of cs pat] by simp
  then show ?case using Cons
    by (auto simp: Let_def starts_with_prefix sublist_Cons_right)
qed

lemma indexOf_prefix: "prefix pat s \<Longrightarrow> indexOf s pat = 0"
  by (cases s) (auto simp: starts_with_prefix)

lemma indexOf_first:
  assumes "pat \<noteq> []" and "\<not> sublist pat (a @ butlast pat)"
  shows "indexOf (a @ pat @ b) pat = int (length a)"
  using assms(2)
proof (induction a)
  case Nil
  show ?case by (simp add: indexOf_prefix)
next
  case (Cons c a)
  have np: "\<not> prefix pat (c # a @ pat @ b)"
  proof
    assume p: "prefix pat (c # a @ pat @ b)"
    have "length pat \<le> length ((c # a) @ butlast pat)" by simp
    moreover have "(c # a @ pat @ b) = ((c # a) @ butlast pat) @ (last pat # b)"
      using assms(1) by simp
    ultimately have "prefix pat ((c # a) @ butlast pat)"
      using p by (metis prefix_length_prefix prefixI prefix_order.dual_order.refl append_prefixD prefix_append)
    then show False using Cons.prems by (meson prefix_imp_sublist)
  qed
  have "\<not> sublist pat (a @ butlast pat)"
    using Cons.prems by (simp add: sublist_Cons_right)
  then have "indexOf (a @ pat @ b) pat = int (length a)" by (rule Cons.IH)
  then show ?case using np by (simp add: starts_with_prefix Let_def)
qed


lemma replace_first_strip:
  assumes "pat \<noteq> []"
  shows "replace_first pat [] s = strip_first pat s"
proof (induction s)
  case Nil
  show ?case using assms by (simp add: replace_first_def)
next
  case (Cons c cs)
  show ?case
  proof (cases "prefix pat (c # cs)")
    case True
    then show ?thesis by (simp add: replace_first_def starts_with_prefix)
  next
    case False
    show ?thesis
    proof (cases "indexOf cs pat < 0")
      case True
      then show ?thesis using False Cons
        by (simp add: replace_first_def starts_with_prefix Let_def)
    next
      case nonneg: False
      then have "nat (indexOf cs pat + 1) = Suc (nat (indexOf cs pat))" by simp
      then show ?thesis using False Cons nonneg
        by (simp add: replace_first_def starts_with_prefix Let_def)
    qed
  qed
qed

lemma strip_first_absent: "\<not> sublist pat s \<Longrightarrow> strip_first pat s = s"
  by (induction s) (auto simp: sublist_Cons_right)

lemma strip_first_once:
  assumes "pat \<noteq> []" and "\<not> sublist pat (a @ butlast pat)"
  shows "strip_first pat (a @ pat @ b) = a @ b"
proof -
  have "replace_first pat [] (a @ pat @ b) = a @ b"
    using indexOf_first [OF assms, of b] by (simp add: replace_first_def)
  then show ?thesis using replace_first_strip [OF assms(1)] by simp
qed

lemma push_cleaned_eq:
  "push_cleaned members acc =
     acc @ map (\<lambda>(funcName, fn). replace_first ''common_1.'' [] fn) members"
  by (induction members acc rule: push_cleaned.induct) auto


section \<open>The splice loop\<close>

lemma unbordered_split:
  assumes "unbordered pat" and "pat = x1 @ x2" and "x1 \<noteq> []" and "x2 \<noteq> []"
  shows "hd x2 \<noteq> hd pat"
proof -
  have "hd x2 \<in> set (tl pat)"
    using assms(2,3,4) by (cases x1; cases x2) auto
  then show ?thesis using assms(1) by (auto simp: unbordered_def)
qed

lemma no_straddle_hd:
  assumes "unbordered pat" and "\<not> sublist pat a" and "\<not> sublist pat b"
      and "b = [] \<or> hd b = hd pat"
  shows "\<not> sublist pat (a @ b)"
proof
  assume "sublist pat (a @ b)"
  then obtain x1 x2 where x: "pat = x1 @ x2" "suffix x1 a" "prefix x2 b"
    using assms(2,3) by (auto simp: sublist_append)
  have "x1 \<noteq> []" using x assms(3) by auto
  moreover have "x2 \<noteq> []" using x assms(2) by auto
  moreover have "hd x2 = hd pat"
    using x(3) \<open>x2 \<noteq> []\<close> assms(4) by (cases x2; cases b) auto
  ultimately show False using unbordered_split [OF assms(1) x(1)] by blast
qed

lemma no_straddle_sep:
  assumes "q \<notin> set pat" and "\<not> sublist pat a" and "\<not> sublist pat b"
  shows "\<not> sublist pat (a @ q # b)"
proof
  assume s: "sublist pat (a @ q # b)"
  have np: "\<not> prefix pat (q # b)"
  proof
    assume "prefix pat (q # b)"
    then show False using assms(1,2) by (cases pat) auto
  qed
  then have "\<not> sublist pat (q # b)" using assms(3) by (simp add: sublist_Cons_right)
  then obtain x1 x2 where x: "pat = x1 @ x2" "suffix x1 a" "prefix x2 (q # b)"
    using s assms(2) by (auto simp: sublist_append)
  show False
  proof (cases x2)
    case Nil
    then show ?thesis using x assms(2) by auto
  next
    case (Cons c cs)
    then have "c = q" using x(3) by simp
    then show ?thesis using x(1) Cons assms(1) by auto
  qed
qed

lemma no_straddle_butlast:
  assumes "unbordered pat" and "\<not> sublist pat a"
  shows "\<not> sublist pat (a @ butlast pat)"
proof (rule no_straddle_hd [OF assms])
  have "length (butlast pat) < length pat" using assms(1) by (simp add: unbordered_def)
  then show "\<not> sublist pat (butlast pat)" using sublist_length_le by fastforce
  show "butlast pat = [] \<or> hd (butlast pat) = hd pat"
    by (cases pat rule: rev_cases) (auto simp: hd_append)
qed

lemma hd_skip:
  assumes "pat \<noteq> []" and "hd pat \<notin> set a" and "sublist pat (a @ b)"
  shows "sublist pat b"
  using assms(2,3)
proof (induction a)
  case Nil
  then show ?case by simp
next
  case (Cons c a)
  have "\<not> prefix pat (c # a @ b)" using Cons.prems(1) assms(1) by (cases pat) auto
  then have "sublist pat (a @ b)" using Cons.prems(2) by (simp add: sublist_Cons_right)
  then show ?case using Cons by simp
qed

lemma sublist_append_left: "\<not> sublist pat (a @ b) \<Longrightarrow> \<not> sublist pat a"
  by (auto simp: sublist_append)

lemma sublist_append_right: "\<not> sublist pat (a @ b) \<Longrightarrow> \<not> sublist pat b"
  by (auto simp: sublist_append)

lemma unbordered_START: "unbordered FUNC_START"
  by (simp add: unbordered_def FUNC_START_def)

lemma unbordered_STOP: "unbordered FUNC_STOP"
  by (simp add: unbordered_def FUNC_STOP_def)

lemma STOP_in_START:
  assumes "\<not> sublist FUNC_STOP x"
  shows "\<not> sublist FUNC_STOP (FUNC_START @ x)"
proof
  assume s: "sublist FUNC_STOP (FUNC_START @ x)"
  have "\<not> prefix FUNC_STOP (FUNC_START @ x)" by (simp add: FUNC_START_def FUNC_STOP_def)
  then have "sublist FUNC_STOP (tl FUNC_START @ x)"
    using s by (simp add: FUNC_START_def sublist_Cons_right)
  moreover have "hd FUNC_STOP \<notin> set (tl FUNC_START)" by (simp add: FUNC_START_def FUNC_STOP_def)
  moreover have "FUNC_STOP \<noteq> []" by (simp add: FUNC_STOP_def)
  ultimately have "sublist FUNC_STOP x" using hd_skip by blast
  then show False using assms by simp
qed

lemma clamp_index_nat: "0 \<le> i \<Longrightarrow> i \<le> int (length s) \<Longrightarrow> clamp_index s i = nat i"
  by (simp add: clamp_index_def)

lemma substring_mid:
  assumes "i = int (length a)" and "j = int (length a) + int (length m)"
  shows "substring (a @ m @ b) i j = m"
proof -
  have "clamp_index (a @ m @ b) i = length a"
    using assms(1) by (simp add: clamp_index_nat)
  moreover have "clamp_index (a @ m @ b) j = length a + length m"
    using assms(2) by (simp add: clamp_index_nat nat_add_distrib)
  ultimately show ?thesis by (simp add: substring_def Let_def)
qed

lemma substring_head:
  assumes "j = int (length a)"
  shows "substring (a @ b) 0 j = a"
proof -
  have "clamp_index (a @ b) 0 = 0" by (simp add: clamp_index_def)
  moreover have "clamp_index (a @ b) j = length a"
    using assms by (simp add: clamp_index_nat)
  ultimately show ?thesis by (simp add: substring_def Let_def)
qed

lemma substring_from_append:
  assumes "i = int (length a)"
  shows "substring_from (a @ b) i = b"
  using assms by (simp add: substring_from_def clamp_index_nat)

lemma index_START:
  assumes "\<not> sublist FUNC_START (u @ [q])"
  shows "indexOf (u @ q # FUNC_START @ x) FUNC_START = int (length u) + 1"
proof -
  have "\<not> sublist FUNC_START ((u @ [q]) @ butlast FUNC_START)"
    using unbordered_START assms by (rule no_straddle_butlast)
  then have "indexOf ((u @ [q]) @ FUNC_START @ x) FUNC_START = int (length (u @ [q]))"
    using indexOf_first [of FUNC_START "u @ [q]" x] by (simp add: FUNC_START_def)
  then show ?thesis by simp
qed

lemma index_STOP:
  assumes "\<not> sublist FUNC_STOP (u @ [q])" and "\<not> sublist FUNC_STOP e"
  shows "indexOf (u @ q # FUNC_START @ e @ FUNC_STOP @ x) FUNC_STOP
           = int (length u) + 1 + int (length FUNC_START) + int (length e)"
proof -
  have "\<not> sublist FUNC_STOP (e @ butlast FUNC_STOP)"
    using unbordered_STOP assms(2) by (rule no_straddle_butlast)
  then have 1: "\<not> sublist FUNC_STOP (FUNC_START @ e @ butlast FUNC_STOP)"
    by (rule STOP_in_START)
  have "hd (FUNC_START @ e @ butlast FUNC_STOP) = hd FUNC_STOP"
    by (simp add: FUNC_START_def FUNC_STOP_def)
  then have "\<not> sublist FUNC_STOP ((u @ [q]) @ (FUNC_START @ e @ butlast FUNC_STOP))"
    using no_straddle_hd [OF unbordered_STOP assms(1) 1] by blast
  then have "\<not> sublist FUNC_STOP ((u @ q # FUNC_START @ e) @ butlast FUNC_STOP)" by simp
  then have "indexOf ((u @ q # FUNC_START @ e) @ FUNC_STOP @ x) FUNC_STOP
               = int (length (u @ q # FUNC_START @ e))"
    using indexOf_first [of FUNC_STOP "u @ q # FUNC_START @ e" x] by (simp add: FUNC_STOP_def)
  then show ?thesis by simp
qed

lemma splice_step:
  assumes "\<not> sublist FUNC_START (u @ [q])" and "\<not> sublist FUNC_STOP (u @ [q])"
      and "\<not> sublist FUNC_STOP e"
      and "int (length (u @ replace_nl e @ w)) \<le> L"
  shows "splice_loop L (u @ q # FUNC_START @ e @ FUNC_STOP @ q' # w)
           (indexOf (u @ q # FUNC_START @ e @ FUNC_STOP @ q' # w) FUNC_START)
         = splice_loop L (u @ replace_nl e @ w) (indexOf (u @ replace_nl e @ w) FUNC_START)"
proof -
  let ?str = "u @ q # FUNC_START @ e @ FUNC_STOP @ q' # w"
  have i: "indexOf ?str FUNC_START = int (length u) + 1"
    using assms(1) by (rule index_START)
  have j: "indexOf ?str FUNC_STOP = int (length u) + 1 + int (length FUNC_START) + int (length e)"
    using assms(2,3) by (rule index_STOP)
  have "substring ((u @ q # FUNC_START) @ e @ (FUNC_STOP @ q' # w))
              (int (length u) + 1 + int (length FUNC_START))
              (int (length u) + 1 + int (length FUNC_START) + int (length e)) = e"
    by (rule substring_mid) simp_all
  then have fn: "substring ?str (int (length u) + 1 + int (length FUNC_START))
              (int (length u) + 1 + int (length FUNC_START) + int (length e)) = e"
    by simp
  have pre: "substring ?str 0 (int (length u) + 1 - 1) = u"
    by (rule substring_head) simp
  have "substring_from ((u @ q # FUNC_START @ e @ FUNC_STOP @ [q']) @ w)
                (int (length u) + 1 + int (length FUNC_START) + int (length e)
                 + int (length FUNC_STOP) + 1) = w"
    by (rule substring_from_append) simp
  then have post: "substring_from ?str
                (int (length u) + 1 + int (length FUNC_START) + int (length e)
                 + int (length FUNC_STOP) + 1) = w"
    by simp
  have fit: "\<not> L < int (length (u @ replace_nl e @ w))" using assms(4) by simp
  show ?thesis
    by (subst splice_loop.simps) (simp only: i j fn pre post fit Let_def, simp)
qed

lemma marker_free_iff: "marker_free s = (\<not> sublist FUNC_START s \<and> \<not> sublist FUNC_STOP s)"
  by (simp add: marker_free_def indexOf_neg_iff)

lemma marker_free_append_left: "marker_free (a @ b) \<Longrightarrow> marker_free a"
  by (auto simp: marker_free_iff sublist_append)

lemma marker_free_snoc_DQ: "marker_free u \<Longrightarrow> marker_free (u @ [DQ])"
  unfolding marker_free_iff
  using no_straddle_sep [of DQ FUNC_START u "[]"] no_straddle_sep [of DQ FUNC_STOP u "[]"]
  by (simp add: FUNC_START_def FUNC_STOP_def DQ_def)

lemma splice_loop_done:
  assumes "indexOf u FUNC_START < 0"
  shows "splice_loop L u (indexOf u FUNC_START) = Some (Returns u)"
  using assms by (subst splice_loop.simps) simp

lemma length_replace_nl: "length (replace_nl s) \<le> length s"
  by (induction s rule: replace_nl.induct) auto

lemma length_spliceds: "length (spliceds ss) \<le> length (raws ss)"
proof (induction ss)
  case Nil
  show ?case by (simp add: raws_def spliceds_def)
next
  case (Cons x ss)
  have "length (spliced x) \<le> length (raw x)"
  proof (cases x)
    case (Lit s)
    then show ?thesis by simp
  next
    case (Fn e)
    then show ?thesis using length_replace_nl [of e] by simp
  qed
  then show ?case using Cons by (simp add: raws_def spliceds_def)
qed

lemma splice_loop_segs:
  assumes "marker_free (u @ spliceds ss)"
      and "\<forall>e. Fn e \<in> set ss \<longrightarrow> \<not> sublist FUNC_STOP e"
      and "int (length (u @ raws ss)) \<le> L"
  shows "splice_loop L (u @ raws ss) (indexOf (u @ raws ss) FUNC_START)
           = Some (Returns (u @ spliceds ss))"
  using assms
proof (induction ss arbitrary: u)
  case Nil
  then show ?case by (simp add: raws_def spliceds_def splice_loop_done marker_free_def)
next
  case (Cons x ss)
  show ?case
  proof (cases x)
    case (Lit s)
    have "marker_free ((u @ s) @ spliceds ss)"
      using Cons.prems(1) Lit by (simp add: spliceds_def)
    moreover have "int (length ((u @ s) @ raws ss)) \<le> L"
      using Cons.prems(3) Lit by (simp add: raws_def)
    ultimately have "splice_loop L ((u @ s) @ raws ss) (indexOf ((u @ s) @ raws ss) FUNC_START)
                 = Some (Returns ((u @ s) @ spliceds ss))"
      using Cons.prems(2) by (intro Cons.IH) auto
    then show ?thesis using Lit by (simp add: raws_def spliceds_def)
  next
    case (Fn e)
    have mu: "marker_free (u @ [DQ])"
      using Cons.prems(1) marker_free_append_left marker_free_snoc_DQ by blast
    have e: "\<not> sublist FUNC_STOP e" using Cons.prems(2) Fn by simp
    have m': "marker_free ((u @ replace_nl e) @ spliceds ss)"
      using Cons.prems(1) Fn by (simp add: spliceds_def)
    have len: "int (length ((u @ replace_nl e) @ raws ss)) \<le> L"
      using Cons.prems(3) Fn length_replace_nl [of e] by (simp add: raws_def)
    have "splice_loop L (u @ raws (x # ss)) (indexOf (u @ raws (x # ss)) FUNC_START)
            = splice_loop L (u @ DQ # FUNC_START @ e @ FUNC_STOP @ DQ # raws ss)
                (indexOf (u @ DQ # FUNC_START @ e @ FUNC_STOP @ DQ # raws ss) FUNC_START)"
      using Fn by (simp add: raws_def)
    also have "\<dots> = splice_loop L (u @ replace_nl e @ raws ss)
                        (indexOf (u @ replace_nl e @ raws ss) FUNC_START)"
      using mu e len by (intro splice_step) (simp_all add: marker_free_iff)
    also have "\<dots> = Some (Returns ((u @ replace_nl e) @ spliceds ss))"
      using Cons.IH [OF m' _ len] Cons.prems(2) by simp
    finally show ?thesis using Fn by (simp add: spliceds_def)
  qed
qed

lemma seg_rel_lit: "seg_rel F s s"
  unfolding seg_rel_def by (rule exI [of _ "[Lit s]"]) (simp add: raws_def spliceds_def)

lemma seg_rel_fn: "e \<in> F \<Longrightarrow> seg_rel F (DQ # FUNC_START @ e @ FUNC_STOP @ [DQ]) (replace_nl e)"
  unfolding seg_rel_def by (rule exI [of _ "[Fn e]"]) (simp add: raws_def spliceds_def)

lemma seg_rel_append:
  assumes "seg_rel F r1 t1" and "seg_rel F r2 t2"
  shows "seg_rel F (r1 @ r2) (t1 @ t2)"
proof -
  obtain s1 s2 where
    "r1 = raws s1" "t1 = spliceds s1" "\<forall>e. Fn e \<in> set s1 \<longrightarrow> e \<in> F"
    "r2 = raws s2" "t2 = spliceds s2" "\<forall>e. Fn e \<in> set s2 \<longrightarrow> e \<in> F"
    using assms unfolding seg_rel_def by blast
  then show ?thesis
    unfolding seg_rel_def by (intro exI [of _ "s1 @ s2"]) (auto simp: raws_def spliceds_def)
qed

lemma seg_rel_mono: "seg_rel F r t \<Longrightarrow> F \<subseteq> G \<Longrightarrow> seg_rel G r t"
  unfolding seg_rel_def by blast

lemma seg_rel_join:
  "list_all2 (seg_rel F) rs ts \<Longrightarrow> seg_rel F (join_js sep rs) (join_js sep ts)"
proof (induction rs ts rule: list_all2_induct)
  case Nil
  show ?case using seg_rel_lit [of F "[]"] by simp
next
  case (Cons r rs t ts)
  show ?case
  proof (cases rs)
    case Nil
    then have "ts = []" using Cons.hyps(2) by simp
    then show ?thesis using Nil Cons.hyps(1) by simp
  next
    case (Cons r' rs')
    then obtain t' ts' where ts: "ts = t' # ts'" using Cons.hyps(2) by (cases ts) auto
    have "seg_rel F (r @ sep @ join_js sep rs) (t @ sep @ join_js sep ts)"
      using Cons.hyps(1) Cons.IH seg_rel_lit [of F sep] seg_rel_append by blast
    then show ?thesis using Cons ts by simp
  qed
qed

lemma list_all2_concat_map:
  "(\<And>x. x \<in> set xs \<Longrightarrow> list_all2 R (f x) (g x)) \<Longrightarrow>
   list_all2 R (concat (map f xs)) (concat (map g xs))"
  by (induction xs) (auto intro: list_all2_appendI)

lemma escape_append: "escape (a @ b) = escape a @ escape b"
  by (simp add: escape_def)

lemma escape_START: "escape FUNC_START = FUNC_START"
  by (simp add: escape_def escape_char_def FUNC_START_def DQ_def BSL_def LF_def)

lemma escape_STOP: "escape FUNC_STOP = FUNC_STOP"
  by (simp add: escape_def escape_char_def FUNC_STOP_def DQ_def BSL_def LF_def)

lemma serialize_function:
  "is_function v \<Longrightarrow>
   marked_text v = Some (DQ # FUNC_START @ escape (fn_text v) @ FUNC_STOP @ [DQ])"
  by (simp add: marked_text.simps [of v] marked_def quote_def escape_append
      escape_START escape_STOP)

lemma replacer_id: "\<not> is_function v \<Longrightarrow> marked v = v"
  by (simp add: marked_def)

lemma fn_texts_function: "is_function v \<Longrightarrow> fn_texts v = [fn_text v]"
  by (simp add: fn_texts.simps [of v])

lemma fn_texts_arr: "\<not> is_function (JArr xs) \<Longrightarrow> x \<in> set xs \<Longrightarrow> set (fn_texts x) \<subseteq> set (fn_texts (JArr xs))"
  by (auto simp: fn_texts.simps [of "JArr xs"])

lemma fn_texts_obj: "\<not> is_function (JObj fs) \<Longrightarrow> kx \<in> set fs \<Longrightarrow> set (fn_texts (snd kx)) \<subseteq> set (fn_texts (JObj fs))"
  by (auto simp: fn_texts.simps [of "JObj fs"])

lemma serialize_render:
  "rel_option (seg_rel (escape ` set (fn_texts v))) (marked_text v) (render v)"
proof (induction v rule: render.induct)
  case (1 v)
  let ?F = "escape ` set (fn_texts v)"
  show ?case
  proof (cases "is_function v")
    case True
    then show ?thesis
      by (simp add: serialize_function render.simps [of v] fn_texts_function seg_rel_fn)
  next
    case nf: False
    show ?thesis
    proof (cases v)
      case (JArr xs)
      have el: "seg_rel ?F (case marked_text x of None \<Rightarrow> ''null'' | Some t \<Rightarrow> t)
                           (case render x of None \<Rightarrow> ''null'' | Some t \<Rightarrow> t)"
        if "x \<in> set xs" for x
      proof -
        have "rel_option (seg_rel (escape ` set (fn_texts x))) (marked_text x) (render x)"
          using "1.IH"(1) [OF nf JArr that] .
        moreover have "escape ` set (fn_texts x) \<subseteq> ?F"
          using fn_texts_arr [of xs x] nf JArr that by auto
        ultimately show ?thesis
          by (cases "marked_text x"; cases "render x")
             (auto intro: seg_rel_lit seg_rel_mono)
      qed
      have "list_all2 (seg_rel ?F)
              (map (\<lambda>x. case marked_text x of None \<Rightarrow> ''null'' | Some t \<Rightarrow> t) xs)
              (map (\<lambda>x. case render x of None \<Rightarrow> ''null'' | Some t \<Rightarrow> t) xs)"
        using el by (simp add: list_all2_map1 list_all2_map2 list_all2_same)
      then have "seg_rel ?F
              (join_js '','' (map (\<lambda>x. case marked_text x of None \<Rightarrow> ''null'' | Some t \<Rightarrow> t) xs))
              (join_js '','' (map (\<lambda>x. case render x of None \<Rightarrow> ''null'' | Some t \<Rightarrow> t) xs))"
        by (rule seg_rel_join)
      then have "seg_rel ?F
              (''['' @ join_js '','' (map (\<lambda>x. case marked_text x of None \<Rightarrow> ''null'' | Some t \<Rightarrow> t) xs) @ '']'')
              (''['' @ join_js '','' (map (\<lambda>x. case render x of None \<Rightarrow> ''null'' | Some t \<Rightarrow> t) xs) @ '']'')"
        by (intro seg_rel_append seg_rel_lit)
      then show ?thesis
        using nf unfolding JArr
        by (simp add: marked_text.simps [of "JArr xs"] render.simps [of "JArr xs"] replacer_id)
    next
      case (JObj fs)
      have el: "list_all2 (seg_rel ?F)
                  (case marked_text (snd kx) of None \<Rightarrow> []
                   | Some t \<Rightarrow> [quote (fst kx) @ '':'' @ t])
                  (case render (snd kx) of None \<Rightarrow> []
                   | Some t \<Rightarrow> [quote (fst kx) @ '':'' @ t])"
        if "kx \<in> set fs" for kx
      proof -
        have "rel_option (seg_rel (escape ` set (fn_texts (snd kx))))
                (marked_text (snd kx)) (render (snd kx))"
          using "1.IH"(2) [OF nf JObj that] .
        moreover have "escape ` set (fn_texts (snd kx)) \<subseteq> ?F"
          using fn_texts_obj [of fs kx] nf JObj that by auto
        ultimately have r: "rel_option (seg_rel ?F) (marked_text (snd kx)) (render (snd kx))"
          by (cases "marked_text (snd kx)"; cases "render (snd kx)")
             (auto intro: seg_rel_mono)
        have "seg_rel ?F (quote (fst kx) @ '':'' @ a) (quote (fst kx) @ '':'' @ b)"
          if "seg_rel ?F a b" for a b
          using that by (intro seg_rel_append seg_rel_lit)
        then show ?thesis using r
          by (cases "marked_text (snd kx)"; cases "render (snd kx)") auto
      qed
      have "list_all2 (seg_rel ?F)
              (concat (map (\<lambda>kx. case marked_text (snd kx) of None \<Rightarrow> []
                                   | Some t \<Rightarrow> [quote (fst kx) @ '':'' @ t]) fs))
              (concat (map (\<lambda>kx. case render (snd kx) of None \<Rightarrow> []
                                   | Some t \<Rightarrow> [quote (fst kx) @ '':'' @ t]) fs))"
        using el by (rule list_all2_concat_map)
      then have "seg_rel ?F
              (join_js '','' (concat (map (\<lambda>kx. case marked_text (snd kx) of None \<Rightarrow> []
                                   | Some t \<Rightarrow> [quote (fst kx) @ '':'' @ t]) fs)))
              (join_js '','' (concat (map (\<lambda>kx. case render (snd kx) of None \<Rightarrow> []
                                   | Some t \<Rightarrow> [quote (fst kx) @ '':'' @ t]) fs)))"
        by (rule seg_rel_join)
      then have "seg_rel ?F
              (''{'' @ join_js '','' (concat (map (\<lambda>kx. case marked_text (snd kx) of None \<Rightarrow> []
                                   | Some t \<Rightarrow> [quote (fst kx) @ '':'' @ t]) fs)) @ ''}'')
              (''{'' @ join_js '','' (concat (map (\<lambda>kx. case render (snd kx) of None \<Rightarrow> []
                                   | Some t \<Rightarrow> [quote (fst kx) @ '':'' @ t]) fs)) @ ''}'')"
        by (intro seg_rel_append seg_rel_lit)
      then show ?thesis
        using nf unfolding JObj
        by (simp add: marked_text.simps [of "JObj fs"] render.simps [of "JObj fs"] replacer_id)
    qed (use nf in \<open>auto simp: marked_text.simps render.simps replacer_id
           intro: seg_rel_lit\<close>)
  qed
qed

lemma hex_digit_not_marker: "hex_digit n \<notin> marker_chars"
proof -
  have "n mod 16 < length ''0123456789abcdef''" by simp
  then have "hex_digit n \<in> set ''0123456789abcdef''"
    unfolding hex_digit_def by (rule nth_mem)
  then show ?thesis by (auto simp: marker_chars_def FUNC_START_def FUNC_STOP_def)
qed

lemma escape_char_cases:
  "escape_char c = [c] \<or> set (escape_char c) \<inter> marker_chars = {}"
proof -
  have "BSL \<notin> marker_chars" "DQ \<notin> marker_chars" "CHR ''b'' \<notin> marker_chars"
    "CHR ''f'' \<notin> marker_chars" "CHR ''n'' \<notin> marker_chars" "CHR ''r'' \<notin> marker_chars"
    "CHR ''t'' \<notin> marker_chars" "CHR ''u'' \<notin> marker_chars" "CHR ''0'' \<notin> marker_chars"
    by (simp_all add: marker_chars_def FUNC_START_def FUNC_STOP_def BSL_def DQ_def)
  then show ?thesis using hex_digit_not_marker by (simp add: escape_char_def)
qed

lemma escape_char_nonempty: "escape_char c \<noteq> []"
  by (simp add: escape_char_def)

lemma escape_Cons: "escape (c # s) = escape_char c @ escape s"
  by (simp add: escape_def)

lemma prefix_escape:
  "set pat \<subseteq> marker_chars \<Longrightarrow> prefix pat (escape s) \<Longrightarrow> prefix pat s"
proof (induction s arbitrary: pat)
  case Nil
  then show ?case by (simp add: escape_def)
next
  case (Cons c s)
  show ?case
  proof (cases pat)
    case Nil
    then show ?thesis by simp
  next
    case pat: (Cons p ps)
    then have p: "p \<in> marker_chars" and ps: "set ps \<subseteq> marker_chars"
      using Cons.prems(1) by auto
    consider "escape_char c = [c]" | "set (escape_char c) \<inter> marker_chars = {}"
      using escape_char_cases by blast
    then show ?thesis
    proof cases
      case 1
      then have "p = c" "prefix ps (escape s)"
        using Cons.prems(2) pat by (simp_all add: escape_Cons)
      then show ?thesis using Cons.IH [OF ps] pat by simp
    next
      case 2
      obtain x xs where x: "escape_char c = x # xs"
        using escape_char_nonempty [of c] by (cases "escape_char c") auto
      then have "p = x" using Cons.prems(2) pat by (simp add: escape_Cons)
      then show ?thesis using 2 x p by auto
    qed
  qed
qed

lemma sublist_escape:
  assumes "pat \<noteq> []" and "set pat \<subseteq> marker_chars"
  shows "sublist pat (escape s) \<Longrightarrow> sublist pat s"
proof (induction s)
  case Nil
  then show ?case by (simp add: escape_def)
next
  case (Cons c s)
  consider "escape_char c = [c]" | "set (escape_char c) \<inter> marker_chars = {}"
    using escape_char_cases by blast
  then show ?case
  proof cases
    case 1
    then have "prefix pat (escape (c # s)) \<or> sublist pat (escape s)"
      using Cons.prems by (simp add: escape_Cons sublist_Cons_right)
    then show ?thesis
      using prefix_escape [OF assms(2)] Cons.IH by (auto simp: sublist_Cons_right)
  next
    case 2
    have "hd pat \<in> marker_chars" using assms by (cases pat) auto
    then have "hd pat \<notin> set (escape_char c)" using 2 by auto
    then have "sublist pat (escape s)"
      using hd_skip [OF assms(1)] Cons.prems by (simp add: escape_Cons)
    then show ?thesis using Cons.IH by (simp add: sublist_Cons_right)
  qed
qed

lemma STOP_free_escape: "indexOf src FUNC_STOP < 0 \<Longrightarrow> \<not> sublist FUNC_STOP (escape src)"
  using sublist_escape [of FUNC_STOP src]
  by (auto simp: indexOf_neg_iff marker_chars_def FUNC_STOP_def)

lemma sequence_Returns:
  "(\<And>x. x \<in> set xs \<Longrightarrow> f x = Returns (g x)) \<Longrightarrow> sequence (map f xs) = Returns (map g xs)"
  by (induction xs) auto

lemma map2_member_text:
  "concat (map2 member_text fs (map g fs))
     = concat (map (\<lambda>kx. case g kx of None \<Rightarrow> [] | Some t \<Rightarrow> [quote (fst kx) @ '':'' @ t]) fs)"
  by (induction fs) (auto simp: member_text_def split: option.splits)

lemma is_function_cases:
  "is_function v \<Longrightarrow> (\<exists>n s. v = JFun n s) \<or> (\<exists>fs. v = JObj fs)"
  by (cases v) (auto simp: is_function_def split: field.splits)

lemma toString_tame:
  assumes "is_function v" and "tame v"
  shows "toString v = Returns (fn_text v)"
proof -
  consider n s where "v = JFun n s" | fs where "v = JObj fs"
    using is_function_cases [OF assms(1)] by blast
  then show ?thesis
  proof cases
    case 1
    then show ?thesis by simp
  next
    case 2
    then have "map_of fs ''toString'' = None"
      using assms by (simp add: tame.simps [of "JObj fs"])
    then show ?thesis using 2 by simp
  qed
qed

lemma replacer_tame: "tame v \<Longrightarrow> replacer v = Returns (marked v)"
  using toString_tame [of v] by (simp add: replacer_def marked_def)

lemma serialize_tame: "tame v \<Longrightarrow> serialize_property v = Returns (marked_text v)"
proof (induction v rule: marked_text.induct)
  case (1 v)
  have nj: "\<not> calls_toJSON v" using "1.prems" by (simp add: tame.simps [of v])
  have r: "replacer v = Returns (marked v)" using "1.prems" by (rule replacer_tame)
  show ?case
  proof (cases "is_function v")
    case True
    then show ?thesis
      using nj r by (simp add: serialize_property.simps [of v] marked_text.simps [of v] marked_def)
  next
    case nf: False
    then have m: "marked v = v" by (simp add: marked_def)
    show ?thesis
    proof (cases v)
      case (JNum n)
      then have "safe_integer n" using "1.prems" nf by (simp add: tame.simps [of "JNum n"])
      then show ?thesis
        using nj r m unfolding JNum
        by (simp add: serialize_property.simps [of "JNum n"] marked_text.simps [of "JNum n"])
    next
      case (JArr xs)
      have "serialize_property x = Returns (marked_text x)" if "x \<in> set xs" for x
      proof -
        have "tame x" using "1.prems" nf JArr that by (simp add: tame.simps [of "JArr xs"])
        then show ?thesis using "1.IH"(1) [of xs x] m JArr that by simp
      qed
      then have "sequence (map serialize_property xs) = Returns (map marked_text xs)"
        by (rule sequence_Returns)
      then show ?thesis
        using nj r m unfolding JArr
        by (simp add: serialize_property.simps [of "JArr xs"] marked_text.simps [of "JArr xs"]
            element_text_def comp_def)
    next
      case (JObj fs)
      have "serialize_property (snd kx) = Returns (marked_text (snd kx))" if "kx \<in> set fs" for kx
      proof -
        have "tame (snd kx)" using "1.prems" nf JObj that by (simp add: tame.simps [of "JObj fs"])
        then show ?thesis using "1.IH"(2) [of fs kx] m JObj that by simp
      qed
      then have "sequence (map (\<lambda>kx. serialize_property (snd kx)) fs)
                   = Returns (map (\<lambda>kx. marked_text (snd kx)) fs)"
        by (rule sequence_Returns)
      then show ?thesis
        using nj r m map2_member_text [of fs "\<lambda>kx. marked_text (snd kx)"] unfolding JObj
        by (simp add: serialize_property.simps [of "JObj fs"] marked_text.simps [of "JObj fs"])
    next
      case JUndefined
      show ?thesis
        using nj r m unfolding JUndefined
        by (simp add: serialize_property.simps [of JUndefined] marked_text.simps [of JUndefined])
    next
      case JNull
      show ?thesis
        using nj r m unfolding JNull
        by (simp add: serialize_property.simps [of JNull] marked_text.simps [of JNull])
    next
      case (JBool b)
      show ?thesis
        using nj r m unfolding JBool
        by (simp add: serialize_property.simps [of "JBool b"] marked_text.simps [of "JBool b"])
    next
      case (JStr t)
      show ?thesis
        using nj r m unfolding JStr
        by (simp add: serialize_property.simps [of "JStr t"] marked_text.simps [of "JStr t"])
    next
      case (JFun n t)
      show ?thesis
        using nj r m unfolding JFun
        by (simp add: serialize_property.simps [of "JFun n t"] marked_text.simps [of "JFun n t"])
    qed
  qed
qed

lemma stringify_undefined:
  "tame v \<Longrightarrow> render v = None \<Longrightarrow> stringifyWithFunctions L v = Some (Throws TypeError)"
  using serialize_render [of v] serialize_tame [of v]
  by (cases "marked_text v") (auto simp: stringifyWithFunctions_def JSON_stringify_def)

lemma stringify_render:
  assumes "render v = Some t" and "marker_free t"
      and "\<forall>src \<in> set (fn_texts v). indexOf src FUNC_STOP < 0"
      and "tame v" and "fits L v"
  shows "stringifyWithFunctions L v = Some (Returns t)"
proof -
  obtain r where r: "marked_text v = Some r"
    and "seg_rel (escape ` set (fn_texts v)) r t"
    using serialize_render [of v] assms(1) by (cases "marked_text v") auto
  then obtain ss where ss: "r = raws ss" "t = spliceds ss"
    "\<forall>e. Fn e \<in> set ss \<longrightarrow> e \<in> escape ` set (fn_texts v)"
    unfolding seg_rel_def by blast
  have len: "int (length r) \<le> L" using assms(5) r by (simp add: fits_def)
  have "marker_free ([] @ spliceds ss)" using assms(2) ss(2) by simp
  moreover have "\<forall>e. Fn e \<in> set ss \<longrightarrow> \<not> sublist FUNC_STOP e"
    using ss(3) assms(3) STOP_free_escape by blast
  moreover have "int (length ([] @ raws ss)) \<le> L" using len ss(1) by simp
  ultimately have "splice_loop L ([] @ raws ss) (indexOf ([] @ raws ss) FUNC_START)
                     = Some (Returns ([] @ spliceds ss))"
    by (rule splice_loop_segs)
  then show ?thesis
    using r ss len serialize_tame [OF assms(4)]
    by (simp add: stringifyWithFunctions_def JSON_stringify_def)
qed

section \<open>Line breaks in function texts\<close>

lemma rn_char: "c \<noteq> BSL \<Longrightarrow> replace_nl (c # cs) = c # replace_nl cs"
  by (cases cs) auto

lemma rn_bsl_nl: "replace_nl (BSL # CHR ''n'' # cs) = LF # replace_nl cs"
  by simp

lemma rn_bsl: "cs = [] \<or> hd cs \<noteq> CHR ''n'' \<Longrightarrow> replace_nl (BSL # cs) = BSL # replace_nl cs"
  by (cases cs) auto

lemma hex_digit_not_BSL: "hex_digit n \<noteq> BSL"
proof -
  have "n mod 16 < length ''0123456789abcdef''" by simp
  then have "hex_digit n \<in> set ''0123456789abcdef''"
    unfolding hex_digit_def by (rule nth_mem)
  then show ?thesis by (auto simp: BSL_def)
qed

lemma hd_escape_char: "hd (escape_char d) = d \<or> hd (escape_char d) = BSL"
  by (simp add: escape_char_def)

lemma hd_escape_n:
  assumes "s = [] \<or> hd s \<noteq> CHR ''n''"
  shows "escape s = [] \<or> hd (escape s) \<noteq> CHR ''n''"
proof (cases s)
  case Nil
  then show ?thesis by (simp add: escape_def)
next
  case (Cons d r)
  then have "d \<noteq> CHR ''n''" using assms by simp
  moreover have "hd (escape s) = hd (escape_char d)"
    using Cons escape_char_nonempty [of d] by (simp add: escape_Cons)
  ultimately show ?thesis using hd_escape_char [of d] by (auto simp: BSL_def)
qed

lemma rn_block: "BSL \<notin> set b \<Longrightarrow> replace_nl (b @ E) = b @ replace_nl E"
  by (induction b) (auto simp: rn_char)

lemma escape_char_shape:
  assumes "c \<noteq> BSL" and "c \<noteq> LF"
  shows "escape_char c = [c]
         \<or> (\<exists>x b. escape_char c = BSL # x # b \<and> x \<noteq> CHR ''n'' \<and> x \<noteq> BSL \<and> BSL \<notin> set b)"
proof -
  have b: "hex_digit n \<noteq> CHR 0x5C" for n using hex_digit_not_BSL [of n] by (simp add: BSL_def)
  show ?thesis
    using assms unfolding escape_char_def BSL_def DQ_def LF_def
    using b [of "of_char c div 16"] b [of "of_char c"] by auto
qed

lemma replace_nl_escape_char:
  assumes "c = BSL \<longrightarrow> (E = [] \<or> hd E \<noteq> CHR ''n'')"
  shows "replace_nl (escape_char c @ E) = (if c = LF then [LF] else escape_char c) @ replace_nl E"
proof -
  consider "c = BSL" | "c = LF" | "c \<noteq> BSL \<and> c \<noteq> LF" by blast
  then show ?thesis
  proof cases
    case 1
    have "replace_nl (BSL # BSL # E) = BSL # replace_nl (BSL # E)"
      by (rule rn_bsl) (simp add: BSL_def)
    also have "\<dots> = BSL # BSL # replace_nl E"
      using assms 1 rn_bsl [of E] by simp
    finally show ?thesis using 1 by (simp add: escape_char_def BSL_def DQ_def LF_def)
  next
    case 2
    have "escape_char LF = [BSL, CHR ''n'']" by (simp add: escape_char_def BSL_def DQ_def LF_def)
    then show ?thesis using 2 rn_bsl_nl [of E] by simp
  next
    case 3
    then consider "escape_char c = [c]"
      | x b where "escape_char c = BSL # x # b" "x \<noteq> CHR ''n''" "x \<noteq> BSL" "BSL \<notin> set b"
      using escape_char_shape [of c] by blast
    then show ?thesis
    proof cases
      case 1
      then show ?thesis using 3 by (simp add: rn_char)
    next
      case 2
      have "replace_nl (BSL # x # b @ E) = BSL # replace_nl (x # b @ E)"
        by (rule rn_bsl) (simp add: 2)
      also have "\<dots> = BSL # x # replace_nl (b @ E)"
        using 2(3) by (simp add: rn_char)
      also have "\<dots> = BSL # x # b @ replace_nl E"
        using 2(4) by (simp add: rn_block)
      finally show ?thesis using 2(1) 3 by simp
    qed
  qed
qed

lemma no_bsl_n_Cons: "no_bsl_n (c # s) \<Longrightarrow> no_bsl_n s"
  by (cases s) auto

lemma replace_nl_escape:
  "no_bsl_n src \<Longrightarrow> replace_nl (escape src) = keep_escaped src"
proof (induction src)
  case Nil
  show ?case by (simp add: escape_def keep_escaped_def)
next
  case (Cons c src)
  have "c = BSL \<longrightarrow> (escape src = [] \<or> hd (escape src) \<noteq> CHR ''n'')"
  proof
    assume "c = BSL"
    then have "src = [] \<or> hd src \<noteq> CHR ''n''" using Cons.prems by (cases src) auto
    then show "escape src = [] \<or> hd (escape src) \<noteq> CHR ''n''" by (rule hd_escape_n)
  qed
  then have "replace_nl (escape_char c @ escape src)
               = (if c = LF then [LF] else escape_char c) @ replace_nl (escape src)"
    by (rule replace_nl_escape_char)
  then show ?case
    using Cons.IH no_bsl_n_Cons [OF Cons.prems] by (simp add: escape_Cons keep_escaped_def)
qed

lemma escape_char_BSL: "escape_char BSL \<noteq> [BSL] \<and> BSL \<noteq> LF"
  by (simp add: escape_char_def BSL_def DQ_def LF_def)

lemma plain_src_no_bsl: "plain_src s \<Longrightarrow> BSL \<notin> set s"
  using escape_char_BSL unfolding plain_src_def by blast

lemma no_bsl_no_bsl_n: "BSL \<notin> set s \<Longrightarrow> no_bsl_n s"
  by (induction s rule: no_bsl_n.induct) auto

lemma plain_src_keep: "plain_src s \<Longrightarrow> keep_escaped s = s"
proof (induction s)
  case Nil
  show ?case by (simp add: keep_escaped_def)
next
  case (Cons c s)
  have "plain_src s" using Cons.prems by (simp add: plain_src_def)
  then have "keep_escaped s = s" by (rule Cons.IH)
  moreover have "c = LF \<or> escape_char c = [c]" using Cons.prems by (simp add: plain_src_def)
  ultimately show ?case by (auto simp: keep_escaped_def)
qed

lemma replace_nl_escape_plain:
  assumes "plain_src s"
  shows "replace_nl (escape s) = s"
proof -
  have "no_bsl_n s" using assms plain_src_no_bsl no_bsl_no_bsl_n by blast
  then have "replace_nl (escape s) = keep_escaped s" by (rule replace_nl_escape)
  then show ?thesis using plain_src_keep [OF assms] by simp
qed

lemma prefix_replace_nl:
  "LF \<notin> set pat \<Longrightarrow> prefix pat (replace_nl t) \<Longrightarrow> prefix pat t"
proof (induction t arbitrary: pat rule: replace_nl.induct)
  case (1 c d cs)
  show ?case
  proof (cases pat)
    case Nil
    then show ?thesis by simp
  next
    case (Cons p ps)
    show ?thesis
    proof (cases "c = BSL \<and> d = CHR ''n''")
      case True
      then show ?thesis using "1.prems" Cons by auto
    next
      case False
      then have "p = c" "prefix ps (replace_nl (d # cs))"
        using "1.prems"(2) Cons by auto
      moreover have "LF \<notin> set ps" using "1.prems"(1) Cons by simp
      ultimately show ?thesis using "1.IH"(2) [OF False] Cons by simp
    qed
  qed
qed simp_all

lemma sublist_replace_nl:
  assumes "pat \<noteq> []" and "LF \<notin> set pat"
  shows "sublist pat (replace_nl t) \<Longrightarrow> sublist pat t"
proof (induction t rule: replace_nl.induct)
  case (1 c d cs)
  show ?case
  proof (cases "c = BSL \<and> d = CHR ''n''")
    case True
    have "\<not> prefix pat (LF # replace_nl cs)" using assms by (cases pat) auto
    moreover have "replace_nl (c # d # cs) = LF # replace_nl cs" using True by simp
    ultimately have "sublist pat (replace_nl cs)"
      using "1.prems" by (simp only: sublist_Cons_right) blast
    then show ?thesis using "1.IH"(1) [OF True] by (simp add: sublist_Cons_right)
  next
    case False
    then have "replace_nl (c # d # cs) = c # replace_nl (d # cs)" by auto
    then have "prefix pat (replace_nl (c # d # cs)) \<or> sublist pat (replace_nl (d # cs))"
      using "1.prems" by (simp only: sublist_Cons_right)
    then show ?thesis
      using prefix_replace_nl [OF assms(2)] "1.IH"(2) [OF False]
      by (auto simp: sublist_Cons_right)
  qed
qed simp_all

section \<open>Marker-free texts\<close>

lemma markers_in_chars:
  "FUNC_START \<noteq> []" "FUNC_STOP \<noteq> []"
  "set FUNC_START \<subseteq> marker_chars" "set FUNC_STOP \<subseteq> marker_chars"
  by (simp_all add: marker_chars_def FUNC_START_def FUNC_STOP_def)

lemma mf_nil: "marker_free []"
  by (simp add: marker_free_iff FUNC_START_def FUNC_STOP_def)

lemma mf_sep:
  assumes "q \<notin> marker_chars" and "marker_free a" and "marker_free b"
  shows "marker_free (a @ q # b)"
proof -
  have "q \<notin> set FUNC_START" "q \<notin> set FUNC_STOP"
    using assms(1) by (auto simp: marker_chars_def)
  then show ?thesis
    using assms(2,3) unfolding marker_free_iff by (simp add: no_straddle_sep)
qed

lemma mf_wrap:
  assumes "q \<notin> marker_chars" and "q' \<notin> marker_chars" and "marker_free a"
  shows "marker_free (q # a @ [q'])"
proof -
  have "marker_free (a @ q' # [])" using assms(2,3) mf_nil by (rule mf_sep)
  then have "marker_free ([] @ q # (a @ [q']))" using assms(1) mf_nil mf_sep by blast
  then show ?thesis by simp
qed

lemma mf_join:
  assumes "q \<notin> marker_chars"
  shows "(\<forall>x \<in> set xs. marker_free x) \<Longrightarrow> marker_free (join_js [q] xs)"
proof (induction xs)
  case Nil
  show ?case by (simp add: mf_nil)
next
  case (Cons x xs)
  show ?case
  proof (cases xs)
    case Nil
    then show ?thesis using Cons.prems by simp
  next
    case (Cons y ys)
    have "marker_free x" "marker_free (join_js [q] xs)" using Cons.prems Cons.IH by simp_all
    then have "marker_free (x @ q # join_js [q] xs)" using assms mf_sep by blast
    then show ?thesis using Cons by simp
  qed
qed

lemma mf_no_marker_chars:
  assumes "set t \<inter> marker_chars = {}"
  shows "marker_free t"
proof -
  have "\<not> sublist pat t" if "pat \<noteq> []" "set pat \<subseteq> marker_chars" for pat
  proof
    assume "sublist pat t"
    then have "set pat \<subseteq> set t" by (rule set_mono_sublist)
    then show False using that assms by (cases pat) auto
  qed
  then show ?thesis using markers_in_chars by (simp add: marker_free_iff)
qed

lemma mf_escape:
  assumes "marker_free s"
  shows "marker_free (escape s)"
proof -
  have "\<not> sublist FUNC_START (escape s)"
    using sublist_escape [OF markers_in_chars(1) markers_in_chars(3), of s] assms
    by (auto simp: marker_free_iff)
  moreover have "\<not> sublist FUNC_STOP (escape s)"
    using sublist_escape [OF markers_in_chars(2) markers_in_chars(4), of s] assms
    by (auto simp: marker_free_iff)
  ultimately show ?thesis by (simp add: marker_free_iff)
qed

lemma LF_not_marker: "LF \<notin> marker_chars"
  by (simp add: marker_chars_def FUNC_START_def FUNC_STOP_def LF_def)

lemma mf_replace_nl:
  assumes "marker_free e"
  shows "marker_free (replace_nl e)"
proof -
  have l: "LF \<notin> set FUNC_START" "LF \<notin> set FUNC_STOP"
    using LF_not_marker by (auto simp: marker_chars_def)
  have "\<not> sublist FUNC_START (replace_nl e)"
    using sublist_replace_nl [OF markers_in_chars(1) l(1), of e] assms
    by (auto simp: marker_free_iff)
  moreover have "\<not> sublist FUNC_STOP (replace_nl e)"
    using sublist_replace_nl [OF markers_in_chars(2) l(2), of e] assms
    by (auto simp: marker_free_iff)
  ultimately show ?thesis by (simp add: marker_free_iff)
qed

lemma punct_not_marker:
  "DQ \<notin> marker_chars" "CHR '','' \<notin> marker_chars" "CHR '':'' \<notin> marker_chars"
  "CHR ''['' \<notin> marker_chars" "CHR '']'' \<notin> marker_chars"
  "CHR ''{'' \<notin> marker_chars" "CHR ''}'' \<notin> marker_chars"
  by (simp_all add: marker_chars_def FUNC_START_def FUNC_STOP_def DQ_def)

lemma mf_quote:
  assumes "marker_free s"
  shows "marker_free (quote s)"
  unfolding quote_def
  by (rule mf_wrap [OF punct_not_marker(1) punct_not_marker(1)]) (rule mf_escape [OF assms])

lemma show_nat_digits: "set (show_nat n) \<subseteq> set ''0123456789''"
proof (induction n rule: show_nat.induct)
  case (1 n)
  have d: "(''0123456789'') ! k \<in> set ''0123456789''" if "k < 10" for k
    using that by (intro nth_mem) simp
  show ?case
  proof (cases "n < 10")
    case True
    then show ?thesis using d [of n] by (subst show_nat.simps) simp
  next
    case False
    have "n mod 10 < 10" by simp
    then show ?thesis using False "1.IH" d [of "n mod 10"]
      by (subst show_nat.simps) simp
  qed
qed

lemma digits_not_marker: "set ''-0123456789'' \<inter> marker_chars = {}"
  by (simp add: marker_chars_def FUNC_START_def FUNC_STOP_def)

lemma mf_show_int: "marker_free (show_int i)"
proof (rule mf_no_marker_chars)
  have "set (show_nat n) \<subseteq> set ''-0123456789''" for n
    using show_nat_digits [of n] by (simp add: subset_insertI2)
  then have "set (show_int i) \<subseteq> set ''-0123456789''"
    unfolding show_int_def by (simp del: set_simps add: subset_iff) (simp)
  then show "set (show_int i) \<inter> marker_chars = {}"
    using digits_not_marker by blast
qed

lemma mf_literals: "marker_free ''null''" "marker_free ''true''" "marker_free ''false''"
  by (simp_all add: marker_free_def FUNC_START_def FUNC_STOP_def)

lemma mf_member:
  assumes "marker_free k" and "marker_free t"
  shows "marker_free (quote k @ '':'' @ t)"
proof -
  have "marker_free (quote k @ CHR '':'' # t)"
    using punct_not_marker(3) mf_quote [OF assms(1)] assms(2) by (rule mf_sep)
  then show ?thesis by simp
qed

lemma render_marker_free:
  "clean v \<Longrightarrow> render v = Some t \<Longrightarrow> marker_free t"
proof (induction v arbitrary: t rule: render.induct)
  case (1 v)
  show ?case
  proof (cases "is_function v")
    case True
    then have "marker_free (fn_text v)" using "1.prems"(1) by (simp add: clean.simps [of v])
    then show ?thesis
      using True "1.prems"(2) by (auto simp: render.simps [of v] mf_escape mf_replace_nl)
  next
    case nf: False
    show ?thesis
    proof (cases v)
      case (JArr xs)
      have "marker_free (case render x of None \<Rightarrow> ''null'' | Some t \<Rightarrow> t)" if "x \<in> set xs" for x
      proof (cases "render x")
        case None
        then show ?thesis by (simp add: mf_literals)
      next
        case (Some u)
        have "clean x" using "1.prems"(1) nf that unfolding JArr by (simp add: clean.simps [of "JArr xs"])
        then show ?thesis using "1.IH"(1) [OF nf JArr that] Some by simp
      qed
      then have "marker_free (join_js '','' (map (\<lambda>x. case render x of None \<Rightarrow> ''null'' | Some t \<Rightarrow> t) xs))"
        using mf_join [OF punct_not_marker(2)] by simp
      then have "marker_free (CHR ''['' # join_js '','' (map (\<lambda>x. case render x of None \<Rightarrow> ''null'' | Some t \<Rightarrow> t) xs) @ '']'')"
        by (rule mf_wrap [OF punct_not_marker(4) punct_not_marker(5)])
      then show ?thesis
        using nf "1.prems"(2) unfolding JArr by (auto simp: render.simps [of "JArr xs"])
    next
      case (JObj fs)
      have "\<forall>m \<in> set (case render (snd kx) of None \<Rightarrow> []
                         | Some t \<Rightarrow> [quote (fst kx) @ '':'' @ t]). marker_free m"
        if "kx \<in> set fs" for kx
      proof (cases "render (snd kx)")
        case None
        then show ?thesis by simp
      next
        case (Some u)
        have "marker_free (fst kx)" "clean (snd kx)"
          using "1.prems"(1) nf that unfolding JObj by (simp_all add: clean.simps [of "JObj fs"])
        then show ?thesis using "1.IH"(2) [OF nf JObj that] Some mf_member by simp
      qed
      then have "\<forall>m \<in> set (concat (map (\<lambda>kx. case render (snd kx) of None \<Rightarrow> []
                         | Some t \<Rightarrow> [quote (fst kx) @ '':'' @ t]) fs)). marker_free m"
        by auto
      then have "marker_free (join_js '','' (concat (map (\<lambda>kx. case render (snd kx) of None \<Rightarrow> []
                         | Some t \<Rightarrow> [quote (fst kx) @ '':'' @ t]) fs)))"
        using mf_join [OF punct_not_marker(2)] by blast
      then have "marker_free (CHR ''{'' # join_js '','' (concat (map (\<lambda>kx. case render (snd kx) of None \<Rightarrow> []
                         | Some t \<Rightarrow> [quote (fst kx) @ '':'' @ t]) fs)) @ ''}'')"
        by (rule mf_wrap [OF punct_not_marker(6) punct_not_marker(7)])
      then show ?thesis
        using nf "1.prems"(2) unfolding JObj by (auto simp: render.simps [of "JObj fs"])
    next
      case (JStr s)
      then show ?thesis
        using nf "1.prems" by (auto simp: render.simps [of "JStr s"] clean.simps [of "JStr s"] mf_quote)
    qed (use nf "1.prems"(2) in \<open>auto simp: render.simps mf_literals mf_show_int\<close>)
  qed
qed

lemma clean_fn_texts: "clean v \<Longrightarrow> \<forall>src \<in> set (fn_texts v). marker_free src"
proof (induction v rule: fn_texts.induct)
  case (1 v)
  show ?case
  proof (cases "is_function v")
    case True
    then show ?thesis using "1.prems" by (simp add: clean.simps [of v] fn_texts.simps [of v])
  next
    case nf: False
    show ?thesis
    proof (cases v)
      case (JArr xs)
      have "\<forall>src \<in> set (fn_texts x). marker_free src" if "x \<in> set xs" for x
        using "1.IH"(1) [OF nf JArr that] "1.prems" nf that unfolding JArr
        by (simp add: clean.simps [of "JArr xs"])
      then show ?thesis using nf unfolding JArr by (auto simp: fn_texts.simps [of "JArr xs"])
    next
      case (JObj fs)
      have "\<forall>src \<in> set (fn_texts (snd kx)). marker_free src" if "kx \<in> set fs" for kx
        using "1.IH"(2) [OF nf JObj that] "1.prems" nf that unfolding JObj
        by (simp add: clean.simps [of "JObj fs"])
      then show ?thesis using nf unfolding JObj by (auto simp: fn_texts.simps [of "JObj fs"])
    qed (use nf in \<open>auto simp: fn_texts.simps\<close>)
  qed
qed

lemma stringify_clean:
  assumes "clean v" and "render v = Some t" and "tame v" and "fits L v"
  shows "stringifyWithFunctions L v = Some (Returns t)" and "marker_free t"
proof -
  show m: "marker_free t" using assms(1,2) by (rule render_marker_free)
  have "\<forall>src \<in> set (fn_texts v). indexOf src FUNC_STOP < 0"
    using clean_fn_texts [OF assms(1)] by (simp add: marker_free_def)
  then show "stringifyWithFunctions L v = Some (Returns t)"
    using assms(2) m assms(3,4) by (intro stringify_render)
qed


lemma combined_fits_fits: "combined_fits L env v \<Longrightarrow> fits L v"
  by (auto simp: combined_fits_def fits_def wrap_combined_def split: option.splits)

section \<open>A run of the loop that outgrows the bound\<close>

lemma indexOf_take:
  "indexOf s pat = i \<Longrightarrow> 0 \<le> i \<Longrightarrow> take (nat i + length pat) s = take (nat i) s @ pat"
proof (induction s arbitrary: i)
  case Nil
  then show ?case by (auto split: if_splits)
next
  case (Cons c s)
  show ?case
  proof (cases "prefix pat (c # s)")
    case True
    then have "i = 0" using Cons.prems(1) by (simp add: starts_with_prefix)
    moreover have "take (length pat) (c # s) = pat" using True by (auto simp: prefix_def)
    ultimately show ?thesis by simp
  next
    case False
    let ?j = "indexOf s pat"
    have j: "0 \<le> ?j" "i = ?j + 1"
      using Cons.prems False by (auto simp: starts_with_prefix Let_def split: if_splits)
    then have "take (nat ?j + length pat) s = take (nat ?j) s @ pat"
      using Cons.IH by simp
    moreover have "nat i = Suc (nat ?j)" using j by simp
    ultimately show ?thesis by simp
  qed
qed

lemma replace_nl_id: "BSL \<notin> set t \<Longrightarrow> replace_nl t = t"
  using rn_block [of t "[]"] by simp

lemma no_P_no_STOP: "CHR ''P'' \<notin> set s \<Longrightarrow> indexOf s FUNC_STOP = - 1"
proof -
  assume a: "CHR ''P'' \<notin> set s"
  have "\<not> sublist FUNC_STOP s"
  proof
    assume "sublist FUNC_STOP s"
    then have "set FUNC_STOP \<subseteq> set s" by (rule set_mono_sublist)
    then show False using a by (auto simp: FUNC_STOP_def)
  qed
  then have "indexOf s FUNC_STOP < 0" by (simp add: indexOf_neg_iff)
  then show ?thesis using indexOf_ge [of s FUNC_STOP] by simp
qed

lemma stuck_step:
  assumes "stuck s"
  shows "stuck (substring s 0 (indexOf s FUNC_START - 1)
                @ replace_nl (substring s (indexOf s FUNC_START + int (length FUNC_START)) (- 1))
                @ substring_from s (- 1 + int (length FUNC_STOP) + 1))"
proof -
  let ?i = "indexOf s FUNC_START"
  let ?fn = "substring s (?i + int (length FUNC_START)) (- 1)"
  have i: "0 \<le> ?i" and p: "CHR ''P'' \<notin> set s" and b: "BSL \<notin> set s"
    using assms by (simp_all add: stuck_def)
  have sub: "set (substring s x y) \<subseteq> set s" for x y
    unfolding substring_def Let_def by (meson set_drop_subset set_take_subset subset_trans)
  have subf: "set (substring_from s x) \<subseteq> set s" for x
    unfolding substring_from_def by (rule set_drop_subset)
  have rn: "replace_nl ?fn = ?fn"
    using b sub by (intro replace_nl_id) blast
  have tk: "take (nat ?i + length FUNC_START) s = take (nat ?i) s @ FUNC_START"
    using i by (intro indexOf_take) simp_all
  then have "length (take (nat ?i + length FUNC_START) s) = length (take (nat ?i) s @ FUNC_START)"
    by simp
  then have len: "nat ?i + length FUNC_START \<le> length s"
    by (simp add: min_def FUNC_START_def split: if_splits)
  have "clamp_index s (?i + int (length FUNC_START)) = nat ?i + length FUNC_START"
    using i len by (simp add: clamp_index_def nat_add_distrib)
  moreover have "clamp_index s (- 1) = 0" by (simp add: clamp_index_def)
  ultimately have fn: "?fn = take (nat ?i) s @ FUNC_START"
    using tk by (simp add: substring_def Let_def)
  let ?s' = "substring s 0 (?i - 1) @ replace_nl ?fn @ substring_from s (- 1 + int (length FUNC_STOP) + 1)"
  have "replace_nl ?fn = take (nat ?i) s @ FUNC_START" using rn fn by simp
  moreover have "sublist FUNC_START ((substring s 0 (?i - 1) @ take (nat ?i) s) @ FUNC_START
                   @ substring_from s (- 1 + int (length FUNC_STOP) + 1))"
    by (rule sublist_appendI)
  ultimately have "sublist FUNC_START ?s'" by simp
  then have "0 \<le> indexOf ?s' FUNC_START"
    using indexOf_neg_iff [of ?s' FUNC_START] by simp
  moreover have "set ?s' \<subseteq> set s"
    unfolding rn using sub [of 0 "?i - 1"] sub [of "?i + int (length FUNC_START)" "- 1"]
      subf [of "- 1 + int (length FUNC_STOP) + 1"]
    by (simp del: One_nat_def)
  then have "CHR ''P'' \<notin> set ?s'" "BSL \<notin> set ?s'"
    using p b by blast+
  ultimately show ?thesis by (simp add: stuck_def)
qed

lemma stuck_grows:
  assumes "stuck s"
  shows "length s < length (substring s 0 (indexOf s FUNC_START - 1)
                @ replace_nl (substring s (indexOf s FUNC_START + int (length FUNC_START)) (- 1))
                @ substring_from s (- 1 + int (length FUNC_STOP) + 1))"
proof -
  let ?i = "indexOf s FUNC_START"
  let ?fn = "substring s (?i + int (length FUNC_START)) (- 1)"
  have i: "0 \<le> ?i" and b: "BSL \<notin> set s"
    using assms by (simp_all add: stuck_def)
  have sub: "set (substring s x y) \<subseteq> set s" for x y
    unfolding substring_def Let_def by (meson set_drop_subset set_take_subset subset_trans)
  have rn: "replace_nl ?fn = ?fn"
    using b sub by (intro replace_nl_id) blast
  have tk: "take (nat ?i + length FUNC_START) s = take (nat ?i) s @ FUNC_START"
    using i by (intro indexOf_take) simp_all
  then have "length (take (nat ?i + length FUNC_START) s) = length (take (nat ?i) s @ FUNC_START)"
    by simp
  then have len: "nat ?i + length FUNC_START \<le> length s"
    by (simp add: min_def FUNC_START_def split: if_splits)
  have "clamp_index s (?i + int (length FUNC_START)) = nat ?i + length FUNC_START"
    using i len by (simp add: clamp_index_def nat_add_distrib)
  moreover have "clamp_index s (- 1) = 0" by (simp add: clamp_index_def)
  ultimately have fn: "?fn = take (nat ?i + length FUNC_START) s"
    by (simp add: substring_def Let_def)
  have lfn: "length ?fn = nat ?i + length FUNC_START"
    using len unfolding fn by simp
  have "clamp_index s (- 1 + int (length FUNC_STOP) + 1) = length FUNC_STOP"
    using len by (simp add: clamp_index_def FUNC_START_def FUNC_STOP_def)
  then have "length (substring_from s (- 1 + int (length FUNC_STOP) + 1)) = length s - length FUNC_STOP"
    by (simp add: substring_from_def)
  then have "length s < length ?fn + length (substring_from s (- 1 + int (length FUNC_STOP) + 1))"
    using lfn len by (simp add: FUNC_START_def FUNC_STOP_def)
  then show ?thesis unfolding rn by simp
qed

lemma splice_loop_stuck:
  assumes "stuck s"
  shows "splice_loop L s (indexOf s FUNC_START) = Some (Throws RangeError)"
  using assms
proof (induction "nat (L - int (length s))" arbitrary: s rule: less_induct)
  case less
  let ?s' = "substring s 0 (indexOf s FUNC_START - 1)
                @ replace_nl (substring s (indexOf s FUNC_START + int (length FUNC_START)) (- 1))
                @ substring_from s (- 1 + int (length FUNC_STOP) + 1)"
  have i: "0 \<le> indexOf s FUNC_START" and j: "indexOf s FUNC_STOP = - 1"
    using less.prems no_P_no_STOP by (simp_all add: stuck_def)
  have st: "stuck ?s'" using less.prems by (rule stuck_step)
  have gr: "length s < length ?s'" using less.prems by (rule stuck_grows)
  have unf: "splice_loop L s (indexOf s FUNC_START) =
          (if L < int (length ?s') then Some (Throws RangeError)
           else splice_loop L ?s' (indexOf ?s' FUNC_START))"
    by (subst splice_loop.simps) (simp only: i j Let_def if_True)
  show ?case
  proof (cases "L < int (length ?s')")
    case True
    then show ?thesis unfolding unf by simp
  next
    case False
    then have "nat (L - int (length ?s')) < nat (L - int (length s))"
      using gr by linarith
    then have "splice_loop L ?s' (indexOf ?s' FUNC_START) = Some (Throws RangeError)"
      using st by (rule less.hyps)
    then show ?thesis unfolding unf using False by simp
  qed
qed

section \<open>The intended text of an object\<close>

lemma single_member_not_function: "\<not> is_function (JObj [(k, v)])"
  by (auto simp: is_function_def)

lemma is_function_JFun: "is_function (JFun n s)"
  by (simp add: is_function_def native_def)

lemma render_JFun: "render (JFun n s) = Some (replace_nl (escape s))"
  by (simp add: render.simps [of "JFun n s"] is_function_JFun)

lemma render_JObj:
  "\<not> is_function (JObj fs) \<Longrightarrow>
   render (JObj fs) = Some (''{'' @ join_js '','' (render_members fs) @ ''}'')"
  by (simp add: render.simps [of "JObj fs"] render_members_def)

lemma render_members_Nil: "render_members [] = []"
  by (simp add: render_members_def)

lemma render_members_append: "render_members (a @ b) = render_members a @ render_members b"
  by (simp add: render_members_def)

lemma render_members_fn:
  "render_members ((k, JFun n s) # fs) = (quote k @ '':'' @ replace_nl (escape s)) # render_members fs"
  by (simp add: render_members_def render_JFun)


section \<open>The merge helper\<close>



lemma guard_plain: "plain_source source \<Longrightarrow> guard source = Returns True"
  by (simp add: guard_def plain_source_def)

lemma store_ordinary: "k \<noteq> ''__proto__'' \<Longrightarrow> store k v ob = Returns (set_prop k v ob)"
  by (simp add: store_def)

lemma copy_into_plain:
  "guard source = Returns True \<Longrightarrow> ''__proto__'' \<notin> fst ` set kvs \<Longrightarrow>
   copy_into source kvs ob = (Returns (), copy_all kvs ob)"
proof (induction kvs arbitrary: ob)
  case Nil
  show ?case by (simp add: copy_all_def)
next
  case (Cons kv kvs)
  obtain k v where kv: "kv = (k, v)" by (cases kv)
  have "k \<noteq> ''__proto__''" "''__proto__'' \<notin> fst ` set kvs"
    using Cons.prems(2) kv by auto
  then show ?case
    using Cons.IH [OF Cons.prems(1), of "set_prop k v ob"] Cons.prems(1)
    by (simp add: kv store_ordinary copy_all_def)
qed

lemma plain_source_keys: "plain_source source \<Longrightarrow> ''__proto__'' \<notin> fst ` set source"
  by (simp add: plain_source_def map_of_eq_None_iff)

lemma copy_into_source:
  "plain_source source \<Longrightarrow> copy_into source source ob = (Returns (), copy_all source ob)"
  using copy_into_plain [OF guard_plain plain_source_keys] by blast


lemma copy_props_eq:
  "out < length h \<Longrightarrow>
   copy_props out source kvs h =
     (case copy_into source kvs (h ! out) of (r, ob) \<Rightarrow> (r, h[out := ob]))"
proof (induction kvs arbitrary: h)
  case Nil
  show ?case by simp
next
  case (Cons kv kvs)
  obtain k v where kv: "kv = (k, v)" by (cases kv)
  show ?case
  proof (cases "guard source")
    case (Returns b)
    show ?thesis
    proof (cases b)
      case True
      show ?thesis
      proof (cases "store k v (h ! out)")
        case st: (Returns ob')
        have "out < length (h[out := ob'])" using Cons.prems by simp
        then show ?thesis
          using Cons.IH [of "h[out := ob']"] Returns True st Cons.prems by (simp add: kv)
      qed (use Returns True in \<open>simp_all add: kv\<close>)
    next
      case False
      then show ?thesis using Cons.IH [OF Cons.prems] Returns by (simp add: kv)
    qed
  qed (simp_all add: kv)
qed

lemma copy_props_fresh:
  "copy_props (length h) source kvs (h @ [ob]) =
     (case copy_into source kvs ob of (r, ob') \<Rightarrow> (r, h @ [ob']))"
  using copy_props_eq [of "length h" "h @ [ob]" source kvs] by (simp split: prod.splits)

lemma valid_call_default: "valid_call co h \<Longrightarrow> deref (h @ [ob]) defaultOptions_ref = Some (h ! defaultOptions_ref)"
  by (simp add: valid_call_def deref_def nth_append)

lemma valid_call_custom: "valid_call (Some c) h \<Longrightarrow> deref (h @ [ob]) c = Some (h ! c)"
  by (simp add: valid_call_def deref_def nth_append)

lemma assign_loop_custom:
  assumes "valid_call co h"
  shows "assign_loop (length h) [co] (h @ [ob]) =
     (case merge_into (case co of None \<Rightarrow> [] | Some c \<Rightarrow> [h ! c]) ob of
        (r, ob') \<Rightarrow> (r, h @ [ob']))"
proof (cases co)
  case None
  then show ?thesis by simp
next
  case (Some c)
  have d: "deref (h @ [ob]) c = Some (h ! c)" using assms Some valid_call_custom by blast
  show ?thesis
    unfolding Some
    by (cases "copy_into (h ! c) (h ! c) ob"; cases "fst (copy_into (h ! c) (h ! c) ob)")
       (simp_all add: d copy_props_fresh)
qed

lemma assign_loop_sources:
  assumes "valid_call co h"
  shows "assign_loop (length h) [Some defaultOptions_ref, co] (h @ [ob]) =
     (case merge_into (sources co h) ob of (r, ob') \<Rightarrow> (r, h @ [ob']))"
proof -
  let ?D = "h ! defaultOptions_ref"
  have d: "deref (h @ [ob]) defaultOptions_ref = Some ?D"
    using assms by (rule valid_call_default)
  obtain r ob' where c: "copy_into ?D ?D ob = (r, ob')" by (cases "copy_into ?D ?D ob")
  show ?thesis
  proof (cases r)
    case (Returns u)
    have "assign_loop (length h) [Some defaultOptions_ref, co] (h @ [ob])
            = assign_loop (length h) [co] (h @ [ob'])"
      using c Returns by (simp add: d copy_props_fresh)
    then show ?thesis
      using assign_loop_custom [OF assms, of ob'] c Returns by (simp add: sources_def)
  qed (use c in \<open>simp_all add: d copy_props_fresh sources_def\<close>)
qed

lemma merge_options_eq:
  assumes "valid_call co h"
  shows "merge_options co h =
     (case merge_into (sources co h) [] of
        (Returns _, ob) \<Rightarrow> (Returns (length h), h @ [ob])
      | (Throws e, ob) \<Rightarrow> (Throws e, h @ [ob])
      | (Opaque, ob) \<Rightarrow> (Opaque, h @ [ob]))"
proof -
  obtain r ob where m: "merge_into (sources co h) [] = (r, ob)"
    by (cases "merge_into (sources co h) []")
  have a: "assign_loop (length h) [Some defaultOptions_ref, co] (h @ [[]]) = (r, h @ [ob])"
    using assign_loop_sources [OF assms, of "[]"] m by simp
  have "merge_options co h =
          (case assign_loop (length h) [Some defaultOptions_ref, co] (h @ [[]]) of
             (Throws e, h') \<Rightarrow> (Throws e, h')
           | (Opaque, h') \<Rightarrow> (Opaque, h')
           | (Returns _, h') \<Rightarrow> (Returns (length h), h'))"
    by (simp add: merge_options_def alloc_def assign_def deref_def del: assign_loop.simps)
  then show ?thesis unfolding a m by (cases r) simp_all
qed

lemma merged_object_eq:
  assumes "valid_call co h"
  shows "merged_object co h = snd (merge_into (sources co h) [])"
    and "snd (merge_options co h) = h @ [merged_object co h]"
  by (simp_all add: merged_object_def merge_options_eq [OF assms]
      split: prod.splits outcome.splits)

lemma merge_outcome_eq:
  assumes "valid_call co h"
  shows "fst (merge_options co h) =
     (case fst (merge_into (sources co h) []) of
        Returns _ \<Rightarrow> Returns (length h) | Throws e \<Rightarrow> Throws e | Opaque \<Rightarrow> Opaque)"
  by (simp add: merge_options_eq [OF assms] split: prod.splits outcome.splits)

lemma valid_call_append: "valid_call co h \<Longrightarrow> valid_call co (h @ hs)"
  by (auto simp: valid_call_def split: option.splits)

lemma sources_frame: "valid_call co h \<Longrightarrow> sources co (h @ hs) = sources co h"
  by (auto simp: sources_def valid_call_def nth_append split: option.splits)

lemma merged_object_frame:
  assumes "valid_call co h"
  shows "merged_object co (h @ hs) = merged_object co h"
  by (simp add: merged_object_eq(1) [OF assms]
      merged_object_eq(1) [OF valid_call_append [OF assms]] sources_frame [OF assms])

lemma merge_into_plain:
  assumes "\<forall>s \<in> set ss. plain_source s"
  shows "merge_into ss ob = (Returns (), fold copy_all ss ob)"
  using assms by (induction ss arbitrary: ob) (simp_all add: copy_into_source)


text \<open>The merge helper never reports a missing target to the public functions.\<close>

lemma guard_not_target: "guard source \<noteq> Throws TargetTypeError"
  by (simp add: guard_def split: option.splits jsval.splits)

lemma store_not_throws: "store k v ob \<noteq> Throws e"
  by (simp add: store_def)

lemma copy_props_not_target: "fst (copy_props out source kvs h) \<noteq> Throws TargetTypeError"
proof (induction kvs arbitrary: h)
  case Nil
  show ?case by simp
next
  case (Cons kv kvs)
  obtain k v where kv: "kv = (k, v)" by (cases kv)
  show ?case
  proof (cases "guard source")
    case (Returns b)
    show ?thesis
    proof (cases b)
      case True
      show ?thesis
      proof (cases "store k v (h ! out)")
        case st: (Returns ob')
        then show ?thesis using Returns True Cons.IH [of "h[out := ob']"] by (simp add: kv)
      next
        case (Throws e)
        then show ?thesis using store_not_throws by blast
      next
        case Opaque
        then show ?thesis using Returns True by (simp add: kv)
      qed
    next
      case False
      then show ?thesis using Returns Cons.IH [of h] by (simp add: kv)
    qed
  next
    case (Throws e)
    then have "e \<noteq> TargetTypeError" using guard_not_target [of source] by simp
    then show ?thesis using Throws by (simp add: kv)
  next
    case Opaque
    then show ?thesis by (simp add: kv)
  qed
qed

lemma assign_loop_not_target: "fst (assign_loop out optionSets h) \<noteq> Throws TargetTypeError"
proof (induction optionSets arbitrary: h)
  case Nil
  show ?case by simp
next
  case (Cons src optionSets)
  show ?case
  proof (cases src)
    case None
    then show ?thesis using Cons.IH by simp
  next
    case (Some s)
    show ?thesis
    proof (cases "deref h s")
      case None
      then show ?thesis using Some Cons.IH by simp
    next
      case d: (Some source)
      obtain r h' where c: "copy_props out source source h = (r, h')"
        by (cases "copy_props out source source h")
      then have "r \<noteq> Throws TargetTypeError"
        using copy_props_not_target [of out source source h] by simp
      then show ?thesis using Some d c Cons.IH [of h'] by (cases r) simp_all
    qed
  qed
qed

lemma merge_options_not_target: "fst (merge_options customOptions h) \<noteq> Throws TargetTypeError"
proof -
  obtain r h' where a: "assign_loop (length h) [Some defaultOptions_ref, customOptions] (h @ [[]]) = (r, h')"
    by (cases "assign_loop (length h) [Some defaultOptions_ref, customOptions] (h @ [[]])")
  then have "r \<noteq> Throws TargetTypeError"
    using assign_loop_not_target [of "length h" "[Some defaultOptions_ref, customOptions]" "h @ [[]]"]
    by simp
  moreover have "merge_options customOptions h =
          (case assign_loop (length h) [Some defaultOptions_ref, customOptions] (h @ [[]]) of
             (Throws e, h') \<Rightarrow> (Throws e, h')
           | (Opaque, h') \<Rightarrow> (Opaque, h')
           | (Returns _, h') \<Rightarrow> (Returns (length h), h'))"
    by (simp add: merge_options_def alloc_def assign_def deref_def del: assign_loop.simps)
  ultimately show ?thesis unfolding a by (cases r) simp_all
qed

section \<open>The resolver and the public functions\<close>

lemma toString_error: "toString v = Throws e \<Longrightarrow> e = TypeError"
  by (cases v) (auto split: option.splits jsval.splits)

lemma replacer_error: "replacer v = Throws e \<Longrightarrow> e = TypeError"
  by (auto simp: replacer_def split: if_splits outcome.splits dest: toString_error)

lemma sequence_Throws: "sequence xs = Throws e \<Longrightarrow> Throws e \<in> set xs"
  by (induction xs) (auto split: outcome.splits)

lemma serialize_error: "serialize_property v = Throws e \<Longrightarrow> e = TypeError"
proof (induction v rule: serialize_property.induct)
  case (1 v)
  have nj: "\<not> calls_toJSON v"
    using "1.prems" by (auto simp: serialize_property.simps [of v] split: if_splits)
  show ?case
  proof (cases "replacer v")
    case (Throws e')
    then have "e' = TypeError" by (rule replacer_error)
    moreover have "e = e'"
      using "1.prems" nj Throws by (simp add: serialize_property.simps [of v])
    ultimately show ?thesis by simp
  next
    case Opaque
    then show ?thesis using "1.prems" nj by (simp add: serialize_property.simps [of v])
  next
    case (Returns w)
    show ?thesis
    proof (cases w)
      case (JArr xs)
      have "sequence (map serialize_property xs) = Throws e"
        using "1.prems" nj Returns JArr
        by (simp add: serialize_property.simps [of v] split: outcome.splits)
      then obtain x where "x \<in> set xs" "serialize_property x = Throws e"
        using sequence_Throws by fastforce
      then show ?thesis using "1.IH"(1) [OF nj Returns JArr] by blast
    next
      case (JObj fs)
      have "sequence (map (\<lambda>kx. serialize_property (snd kx)) fs) = Throws e"
        using "1.prems" nj Returns JObj
        by (simp add: serialize_property.simps [of v] split: outcome.splits)
      then obtain kx where "kx \<in> set fs" "serialize_property (snd kx) = Throws e"
        using sequence_Throws by fastforce
      then show ?thesis using "1.IH"(2) [OF nj Returns JObj] by blast
    qed (use "1.prems" nj Returns in \<open>simp_all add: serialize_property.simps [of v] split: if_splits\<close>)
  qed
qed

lemma splice_loop_error:
  assumes "splice_loop L s i = Some y"
  shows "y = Throws e \<longrightarrow> e = RangeError"
  using assms
proof (induction rule: splice_loop.raw_induct [rotated, consumes 1, case_names step])
  case (step f L str idx res)
  show ?case
  proof (cases "0 \<le> idx")
    case True
    let ?s' = "substring str 0 (idx - 1)
                @ replace_nl (substring str (idx + int (length FUNC_START)) (indexOf str FUNC_STOP))
                @ substring_from str (indexOf str FUNC_STOP + int (length FUNC_STOP) + 1)"
    show ?thesis
    proof (cases "L < int (length ?s')")
      case big: True
      then have "res = Throws RangeError" using step(2) True by (simp add: Let_def)
      then show ?thesis by simp
    next
      case False
      then have "f L ?s' (indexOf ?s' FUNC_START) = Some res"
        using step(2) True by (simp add: Let_def)
      then show ?thesis by (rule step(1))
    qed
  next
    case False
    then have "res = Returns str" using step(2) by simp
    then show ?thesis by simp
  qed
qed

lemma stringify_error:
  assumes "stringifyWithFunctions L v = Some (Throws e)"
  shows "e = TypeError \<or> e = RangeError"
proof (cases "serialize_property v")
  case (Throws e')
  then show ?thesis
    using assms serialize_error [of v e']
    by (simp add: stringifyWithFunctions_def JSON_stringify_def)
next
  case Opaque
  then show ?thesis using assms by (simp add: stringifyWithFunctions_def JSON_stringify_def)
next
  case (Returns t)
  show ?thesis
  proof (cases t)
    case None
    then show ?thesis
      using assms Returns by (simp add: stringifyWithFunctions_def JSON_stringify_def)
  next
    case (Some str)
    show ?thesis
    proof (cases "L < int (length str)")
      case True
      then show ?thesis
        using assms Returns Some by (simp add: stringifyWithFunctions_def JSON_stringify_def)
    next
      case False
      then have "splice_loop L str (indexOf str FUNC_START) = Some (Throws e)"
        using assms Returns Some by (simp add: stringifyWithFunctions_def JSON_stringify_def)
      then show ?thesis using splice_loop_error by blast
    qed
  qed
qed

lemma validateOptions_error: "validateOptions opts = Throws e \<Longrightarrow> e = ConfigurationError"
  by (simp add: validateOptions_def split: if_splits)

lemma validateOptions_not_Opaque: "validateOptions opts \<noteq> Opaque"
  by (simp add: validateOptions_def)

lemma prepared_frame:
  assumes "valid_call co h"
  shows "prepared co (h @ hs) = prepared co h"
  unfolding prepared_def sources_frame [OF assms] ..

lemma resolve_eq:
  assumes "valid_call co h"
  shows "resolve co h =
     (case prepared co h of
        Throws e \<Rightarrow> (Throws e, h @ [merged_object co h])
      | Opaque \<Rightarrow> (Opaque, h @ [merged_object co h])
      | Returns _ \<Rightarrow> (Returns (merged_object co h), h @ [merged_object co h]))"
proof -
  obtain r ob where m: "merge_into (sources co h) [] = (r, ob)"
    by (cases "merge_into (sources co h) []")
  have mo: "merged_object co h = ob" using merged_object_eq(1) [OF assms] m by simp
  show ?thesis
    unfolding resolve_def merge_options_eq [OF assms] prepared_def mo m
    by (cases r; cases "validateOptions ob") (simp_all add: validateOptions_not_Opaque)
qed

lemma definition_eq:
  assumes "valid_call co h"
  shows "getInlinePrebootCodeDefinition env co h =
     (case prepared co h of
        Throws e \<Rightarrow> (Throws e, h @ [merged_object co h])
      | Opaque \<Rightarrow> (Opaque, h @ [merged_object co h])
      | Returns _ \<Rightarrow> (Returns (definition_text env), h @ [merged_object co h]))"
  by (simp add: getInlinePrebootCodeDefinition_def resolve_eq [OF assms] split: outcome.splits)

lemma invocation_eq:
  assumes "valid_call co h"
  shows "getInlinePrebootCodeInvocation L co h =
     (case prepared co h of
        Throws e \<Rightarrow> Some (Throws e, h @ [merged_object co h])
      | Opaque \<Rightarrow> Some (Opaque, h @ [merged_object co h])
      | Returns _ \<Rightarrow>
          (case stringifyWithFunctions L (JObj (merged_object co h)) of
             None \<Rightarrow> None
           | Some (Throws e) \<Rightarrow> Some (Throws e, h @ [merged_object co h])
           | Some Opaque \<Rightarrow> Some (Opaque, h @ [merged_object co h])
           | Some (Returns optsStr) \<Rightarrow>
               Some (Returns (initFunctionName @ ''('' @ optsStr @ '');''), h @ [merged_object co h])))"
  by (simp add: getInlinePrebootCodeInvocation_def resolve_eq [OF assms] split: outcome.splits)

lemma invocation_frame:
  assumes "valid_call co h"
  shows "map_option fst (getInlinePrebootCodeInvocation L co (h @ hs)) =
         map_option fst (getInlinePrebootCodeInvocation L co h)"
  by (simp add: invocation_eq [OF assms] invocation_eq [OF valid_call_append [OF assms]]
      merged_object_frame [OF assms] prepared_frame [OF assms]
      split: outcome.splits option.splits)


lemma prepared_plain:
  assumes "valid_call co h" and "plain_sources co h"
  shows "prepared co h = validateOptions (merged_object co h)"
proof -
  have "\<forall>s \<in> set (sources co h). plain_source s"
    using assms(2) by (simp add: plain_sources_def list_all_iff)
  then show ?thesis
    using merge_into_plain [of "sources co h" "[]"]
    by (simp add: prepared_def merged_object_eq(1) [OF assms(1)])
qed

lemma prepared_Returns:
  assumes "valid_call co h" and "fst (merge_options co h) = Returns (length h)"
  shows "prepared co h = validateOptions (merged_object co h)"
  using assms(2) unfolding merge_outcome_eq [OF assms(1)]
  by (simp add: prepared_def merged_object_eq(1) [OF assms(1)] split: outcome.splits)

lemma validateOptions_iff:
  "appRoot_typed opts \<Longrightarrow>
   (validateOptions opts = Throws ConfigurationError) = appRoot_missing opts"
proof (cases "map_of opts ''appRoot''")
  case None
  then show ?thesis by (simp add: validateOptions_def appRoot_missing_def get_prop_def)
next
  case (Some v)
  assume "appRoot_typed opts"
  then have "selector_typed v" using Some by (simp add: appRoot_typed_def)
  then show ?thesis using Some
    by (cases v) (auto simp: validateOptions_def appRoot_missing_def get_prop_def)
qed

lemma valid_example: "valid_call (Some 1) (init_heap @ [example_options])"
  by (simp add: valid_call_def defaultOptions_ref_def init_heap_def)

lemma valid_none: "valid_call None init_heap"
  by (simp add: valid_call_def defaultOptions_ref_def init_heap_def)

lemma merged_example:
  "merged_object (Some 1) (init_heap @ [example_options]) =
     [(''buffer'', JBool True), (''minify'', JBool True), (''replay'', JBool True),
      (''eventSelectors'', JArr [JObj [(''selector'', JStr ''input''),
                                       (''events'', JArr [JStr ''change''])]]),
      (''appRoot'', JStr ''app'')]"
  by code_simp

lemma merged_none: "merged_object None init_heap = defaultOptions"
  by code_simp

lemma prepared_example: "prepared (Some 1) (init_heap @ [example_options]) = Returns ()"
  by code_simp

lemma prepared_none: "prepared None init_heap = Throws ConfigurationError"
  by code_simp

lemma stringify_example:
  \<open>stringifyWithFunctions engine_limit (JObj (merged_object (Some 1) (init_heap @ [example_options]))) =
     Some (Returns ''{"buffer":true,"minify":true,"replay":true,"eventSelectors":[{"selector":"input","events":["change"]}],"appRoot":"app"}'')\<close>
  unfolding merged_example by code_simp

section \<open>A configuration that holds a marker\<close>

lemma stringify_stuck:
  assumes "JSON_stringify v = Returns (Some s)" and "stuck s"
  shows "stringifyWithFunctions L v = Some (Throws RangeError)"
  using assms splice_loop_stuck [OF assms(2), of L]
  by (simp add: stringifyWithFunctions_def)

lemma valid_trap: "valid_call (Some 1) (init_heap @ [trap_options])"
  by (simp add: valid_call_def defaultOptions_ref_def init_heap_def)

lemma merged_trap:
  "merged_object (Some 1) (init_heap @ [trap_options])
     = defaultOptions @ [(''appRoot'', JStr ''START_FUNCTION_HERE'')]"
  by code_simp

lemma prepared_trap: "prepared (Some 1) (init_heap @ [trap_options]) = Returns ()"
  by code_simp

lemma stringify_trap:
  "stringifyWithFunctions L (JObj (merged_object (Some 1) (init_heap @ [trap_options])))
     = Some (Throws RangeError)"
proof -
  let ?v = "JObj (defaultOptions @ [(''appRoot'', JStr ''START_FUNCTION_HERE'')])"
  have "case JSON_stringify ?v of Returns (Some s) \<Rightarrow> stuck s | _ \<Rightarrow> False"
    by code_simp
  then obtain s where "JSON_stringify ?v = Returns (Some s)" "stuck s"
    by (auto split: outcome.splits option.splits)
  then show ?thesis unfolding merged_trap by (rule stringify_stuck)
qed

lemma invocation_trap:
  "getInlinePrebootCodeInvocation L (Some 1) (init_heap @ [trap_options])
     = Some (Throws RangeError, init_heap @ [trap_options]
              @ [merged_object (Some 1) (init_heap @ [trap_options])])"
  unfolding invocation_eq [OF valid_trap] prepared_trap stringify_trap by simp




text \<open>Claim C9, as amended. Each public function passes an object it has just allocated
  as the merge target, so whatever the argument is (also when it is omitted) the branch
  of \<^verbatim>\<open>assign\<close> that throws a \<^verbatim>\<open>TypeError\<close> for a missing target is never taken: no
  public function ends with that error. When the defaults and the override have no own
  property named \<^verbatim>\<open>hasOwnProperty\<close> or \<^verbatim>\<open>__proto__\<close> and the definition block is
  within the bound on strings, the definition emission returns or throws the
  configuration error; when moreover the merged configuration is tame and holds no marker
  and the combined block is within the bound, so do the invocation emission and the
  combined emission.\<close>

theorem assign_target_never_null:
  "fst (merge_options co h) \<noteq> Throws TargetTypeError
   \<and> fst (resolve co h) \<noteq> Throws TargetTypeError
   \<and> fst (getInlinePrebootCodeDefinition env co h) \<noteq> Throws TargetTypeError
   \<and> map_option fst (getInlinePrebootCodeInvocation L co h) \<noteq> Some (Throws TargetTypeError)
   \<and> map_option fst (getInlinePrebootCode L env co h) \<noteq> Some (Throws TargetTypeError)
   \<and> (valid_call co h \<and> plain_sources co h \<and> int (length (definition_text env)) \<le> L \<longrightarrow>
        fst (getInlinePrebootCodeDefinition env co h)
          \<in> {Returns (definition_text env), Throws ConfigurationError})
   \<and> (valid_call co h \<and> plain_sources co h
        \<and> tame (JObj (merged_object co h)) \<and> clean (JObj (merged_object co h))
        \<and> combined_fits L env (JObj (merged_object co h)) \<longrightarrow>
        (\<exists>t. map_option fst (getInlinePrebootCodeInvocation L co h)
               \<in> {Some (Returns t), Some (Throws ConfigurationError)})
        \<and> (\<exists>t. map_option fst (getInlinePrebootCode L env co h)
               \<in> {Some (Returns t), Some (Throws ConfigurationError)}))"
proof -
  have m: "fst (merge_options co g) \<noteq> Throws TargetTypeError" for co g
    by (rule merge_options_not_target)
  have r: "fst (resolve co g) \<noteq> Throws TargetTypeError" for co g
    using m [of co g]
    by (cases "merge_options co g")
       (auto simp: resolve_def split: outcome.splits dest: validateOptions_error)
  have d: "fst (getInlinePrebootCodeDefinition env co g) \<noteq> Throws TargetTypeError" for co g
    using r [of co g]
    by (cases "resolve co g") (auto simp: getInlinePrebootCodeDefinition_def split: outcome.splits)
  have i: "map_option fst (getInlinePrebootCodeInvocation L co g) \<noteq> Some (Throws TargetTypeError)"
    for co g
    using r [of co g] stringify_error [of L _ TargetTypeError]
    by (cases "resolve co g")
       (auto simp: getInlinePrebootCodeInvocation_def split: outcome.splits option.splits)
  have c: "map_option fst (getInlinePrebootCode L env co h) \<noteq> Some (Throws TargetTypeError)"
    using d [of co h] i
    by (cases "getInlinePrebootCodeDefinition env co h")
       (auto simp: getInlinePrebootCode_def split: outcome.splits option.splits prod.splits)
  have b1: "fst (getInlinePrebootCodeDefinition env co h)
              \<in> {Returns (definition_text env), Throws ConfigurationError}"
    if vc: "valid_call co h" and pl: "plain_sources co h"
      and dl: "int (length (definition_text env)) \<le> L"
    using validateOptions_not_Opaque [of "merged_object co h"]
    by (auto simp: definition_eq [OF vc] prepared_plain [OF vc pl]
        split: outcome.splits dest: validateOptions_error)
  have b2: "(\<exists>t. map_option fst (getInlinePrebootCodeInvocation L co h)
               \<in> {Some (Returns t), Some (Throws ConfigurationError)})
        \<and> (\<exists>t. map_option fst (getInlinePrebootCode L env co h)
               \<in> {Some (Returns t), Some (Throws ConfigurationError)})"
    if vc: "valid_call co h" and pl: "plain_sources co h"
      and tm: "tame (JObj (merged_object co h))" and cl: "clean (JObj (merged_object co h))"
      and cf: "combined_fits L env (JObj (merged_object co h))"
  proof -
    let ?m = "merged_object co h"
    have ft: "fits L (JObj ?m)" using cf by (rule combined_fits_fits)
    obtain t where t: "render (JObj ?m) = Some t"
      by (cases "is_function (JObj ?m)") (simp_all add: render.simps [of "JObj ?m"])
    have s: "stringifyWithFunctions L (JObj ?m) = Some (Returns t)"
      using stringify_clean(1) [OF cl t tm ft] .
    have vc': "valid_call co (h @ [?m])" using vc by (rule valid_call_append)
    have p: "prepared co h = validateOptions ?m" using vc pl by (rule prepared_plain)
    have "map_option fst (getInlinePrebootCodeInvocation L co h)
               \<in> {Some (Returns (initFunctionName @ ''('' @ t @ '');'')),
                   Some (Throws ConfigurationError)}"
      using validateOptions_not_Opaque [of ?m]
      by (auto simp: invocation_eq [OF vc] p s split: outcome.splits dest: validateOptions_error)
    moreover have "map_option fst (getInlinePrebootCode L env co h)
               \<in> {Some (Returns (wrap_combined (definition_text env)
                                   (initFunctionName @ ''('' @ t @ '');''))),
                   Some (Throws ConfigurationError)}"
      using validateOptions_not_Opaque [of ?m]
      by (auto simp: getInlinePrebootCode_def definition_eq [OF vc] invocation_eq [OF vc']
          merged_object_frame [OF vc] prepared_frame [OF vc] p s wrap_combined_def
          split: outcome.splits dest: validateOptions_error)
    ultimately show ?thesis by blast
  qed
  show ?thesis using m r d i c b1 b2 by blast
qed

theorem assign_target_never_null_witness:
  "valid_call (Some 1) (init_heap @ [example_options])
   \<and> plain_sources (Some 1) (init_heap @ [example_options])
   \<and> int (length (definition_text example_recorder)) \<le> engine_limit
   \<and> tame (JObj (merged_object (Some 1) (init_heap @ [example_options])))
   \<and> clean (JObj (merged_object (Some 1) (init_heap @ [example_options])))
   \<and> combined_fits engine_limit example_recorder
         (JObj (merged_object (Some 1) (init_heap @ [example_options])))
   \<and> fst (getInlinePrebootCodeDefinition example_recorder (Some 1)
             (init_heap @ [example_options]))
         \<in> {Returns (definition_text example_recorder), Throws ConfigurationError}
   \<and> (\<exists>t. map_option fst (getInlinePrebootCode engine_limit example_recorder (Some 1)
                              (init_heap @ [example_options]))
              \<in> {Some (Returns t), Some (Throws ConfigurationError)})"
proof -
  have pl: "plain_sources (Some 1) (init_heap @ [example_options])"
    by code_simp
  have dl: "int (length (definition_text example_recorder)) \<le> engine_limit"
    by code_simp
  have tm: "tame (JObj (merged_object (Some 1) (init_heap @ [example_options])))"
    unfolding merged_example by code_simp
  have cl: "clean (JObj (merged_object (Some 1) (init_heap @ [example_options])))"
    unfolding merged_example by code_simp
  have ft: "combined_fits engine_limit example_recorder
              (JObj (merged_object (Some 1) (init_heap @ [example_options])))"
    unfolding merged_example by code_simp
  show ?thesis
    using assign_target_never_null [of "Some 1" "init_heap @ [example_options]"
        example_recorder engine_limit] valid_example pl dl tm cl ft
    by blast
qed

text \<open>The claim as stated fails in its last sentence. An override with a truthy own
  property \<^verbatim>\<open>hasOwnProperty\<close> that is no function makes the merge of every public
  function end in a \<^verbatim>\<open>TypeError\<close> of the runtime, and a configuration whose selector
  is the start marker makes the serializer end in a \<^verbatim>\<open>RangeError\<close>.\<close>

theorem assign_target_never_null_counterexample:
  "fst (getInlinePrebootCodeDefinition example_recorder (Some 1)
          (init_heap @ [uncallable_options])) = Throws TypeError
   \<and> map_option fst (getInlinePrebootCodeInvocation engine_limit (Some 1)
          (init_heap @ [uncallable_options])) = Some (Throws TypeError)
   \<and> map_option fst (getInlinePrebootCode engine_limit example_recorder (Some 1)
          (init_heap @ [trap_options])) = Some (Throws RangeError)"
proof -
  have a: "fst (getInlinePrebootCodeDefinition example_recorder (Some 1)
          (init_heap @ [uncallable_options])) = Throws TypeError"
    by code_simp
  have b: "map_option fst (getInlinePrebootCodeInvocation engine_limit (Some 1)
          (init_heap @ [uncallable_options])) = Some (Throws TypeError)"
    by code_simp
  let ?H = "init_heap @ [trap_options]"
  let ?M = "merged_object (Some 1) (init_heap @ [trap_options])"
  have d: "getInlinePrebootCodeDefinition example_recorder (Some 1) ?H
             = (Returns (definition_text example_recorder), ?H @ [?M])"
    unfolding definition_eq [OF valid_trap] prepared_trap by simp
  have i: "map_option fst (getInlinePrebootCodeInvocation engine_limit (Some 1) (?H @ [?M]))
             = Some (Throws RangeError)"
    unfolding invocation_frame [OF valid_trap] invocation_trap by simp
  have "map_option fst (getInlinePrebootCode engine_limit example_recorder (Some 1) ?H)
          = Some (Throws RangeError)"
    unfolding getInlinePrebootCode_def d using i
    by (auto split: option.splits outcome.splits prod.splits)
  then show ?thesis using a b by blast
qed

text \<open>Claim C3 (validation), as amended. For every well-formed call in which the merge
  completes and the resolved \<^verbatim>\<open>appRoot\<close>, when present, is a string or an array (or
  \<^verbatim>\<open>undefined\<close> or \<^verbatim>\<open>null\<close>), the resolver throws the configuration error exactly when
  the resolved \<^verbatim>\<open>appRoot\<close> is absent or empty, and so does each of the three public
  functions: the error reaches the caller as the outcome of the call, in place of any
  text.\<close>

theorem validation_iff:
  assumes "valid_call co h" and "fst (merge_options co h) = Returns (length h)"
      and "appRoot_typed (merged_object co h)"
  shows "(fst (resolve co h) = Throws ConfigurationError) = appRoot_missing (merged_object co h)
       \<and> (fst (getInlinePrebootCodeDefinition env co h) = Throws ConfigurationError)
            = appRoot_missing (merged_object co h)
       \<and> (map_option fst (getInlinePrebootCodeInvocation L co h) = Some (Throws ConfigurationError))
            = appRoot_missing (merged_object co h)
       \<and> (map_option fst (getInlinePrebootCode L env co h) = Some (Throws ConfigurationError))
            = appRoot_missing (merged_object co h)"
proof -
  let ?m = "merged_object co h"
  have p: "prepared co h = validateOptions ?m"
    using assms(1,2) by (rule prepared_Returns)
  have v: "(validateOptions ?m = Throws ConfigurationError) = appRoot_missing ?m"
    using assms(3) by (rule validateOptions_iff)
  have s: "stringifyWithFunctions L (JObj ?m) \<noteq> Some (Throws ConfigurationError)"
    using stringify_error [of L "JObj ?m" ConfigurationError] by auto
  have 1: "(fst (resolve co h) = Throws ConfigurationError) = appRoot_missing ?m"
    using v by (auto simp: resolve_eq [OF assms(1)] p split: outcome.splits dest: validateOptions_error)
  have 2: "(fst (getInlinePrebootCodeDefinition env co h) = Throws ConfigurationError)
            = appRoot_missing ?m"
    using v by (auto simp: definition_eq [OF assms(1)] p split: outcome.splits dest: validateOptions_error)
  have 3: "(map_option fst (getInlinePrebootCodeInvocation L co h) = Some (Throws ConfigurationError))
            = appRoot_missing ?m"
    using v s
    by (auto simp: invocation_eq [OF assms(1)] p split: outcome.splits option.splits
        dest: validateOptions_error)
  have vc: "valid_call co (h @ [?m])" using assms(1) by (rule valid_call_append)
  have 4: "(map_option fst (getInlinePrebootCode L env co h) = Some (Throws ConfigurationError))
            = appRoot_missing ?m"
    using v s
    by (auto simp: getInlinePrebootCode_def definition_eq [OF assms(1)] invocation_eq [OF vc]
        merged_object_frame [OF assms(1)] prepared_frame [OF assms(1)] p
        split: outcome.splits option.splits dest: validateOptions_error)
  show ?thesis using 1 2 3 4 by blast
qed


theorem validation_iff_witness:
  "valid_call None init_heap \<and> fst (merge_options None init_heap) = Returns (length init_heap)
   \<and> appRoot_typed (merged_object None init_heap)
   \<and> map_option fst (getInlinePrebootCodeInvocation engine_limit None init_heap)
       = Some (Throws ConfigurationError)
   \<and> valid_call (Some 1) (init_heap @ [example_options])
   \<and> fst (merge_options (Some 1) (init_heap @ [example_options]))
       = Returns (length (init_heap @ [example_options]))
   \<and> appRoot_typed (merged_object (Some 1) (init_heap @ [example_options]))
   \<and> fst (resolve (Some 1) (init_heap @ [example_options])) \<noteq> Throws ConfigurationError"
proof -
  have r0: "fst (merge_options None init_heap) = Returns (length init_heap)" by code_simp
  have t0: "appRoot_typed (merged_object None init_heap)"
    by (simp add: merged_none appRoot_typed_def defaultOptions_def)
  have m0: "appRoot_missing (merged_object None init_heap)"
    by (simp add: merged_none appRoot_missing_def defaultOptions_def)
  have r1: "fst (merge_options (Some 1) (init_heap @ [example_options]))
              = Returns (length (init_heap @ [example_options]))" by code_simp
  have t1: "appRoot_typed (merged_object (Some 1) (init_heap @ [example_options]))"
    unfolding merged_example by (simp add: appRoot_typed_def)
  have m1: "\<not> appRoot_missing (merged_object (Some 1) (init_heap @ [example_options]))"
    unfolding merged_example by (simp add: appRoot_missing_def)
  show ?thesis
    using validation_iff [OF valid_none r0 t0, of example_recorder engine_limit]
      validation_iff [OF valid_example r1 t1, of example_recorder engine_limit]
      valid_none valid_example r0 r1 t0 t1 m0 m1 by simp
qed

text \<open>The claim as stated fails for an override whose \<^verbatim>\<open>appRoot\<close> is a number: the
  resolved \<^verbatim>\<open>appRoot\<close> is present and not empty, and the resolver throws the
  configuration error all the same, because a number has no \<^verbatim>\<open>length\<close>.\<close>

theorem validation_iff_counterexample:
  "valid_call (Some 1) (init_heap @ [numeric_root_options])
   \<and> fst (merge_options (Some 1) (init_heap @ [numeric_root_options])) = Returns 2
   \<and> map_of (merged_object (Some 1) (init_heap @ [numeric_root_options])) ''appRoot''
       = Some (JNum 5)
   \<and> \<not> appRoot_missing (merged_object (Some 1) (init_heap @ [numeric_root_options]))
   \<and> fst (resolve (Some 1) (init_heap @ [numeric_root_options])) = Throws ConfigurationError"
  by code_simp

text \<open>Claim C7 (combined emission). For every well-formed call the combined emission is the
  definition emission and the invocation emission of the same argument, in this order,
  inside the outer wrapper \<^verbatim>\<open>(function() { ... })()\<close>; an error of either, a run that
  leaves the model, or an invocation that never returns, is the outcome of the combined
  call.\<close>

theorem combined_nests:
  assumes "valid_call co h"
  shows "map_option fst (getInlinePrebootCode L env co h) =
     (case fst (getInlinePrebootCodeDefinition env co h) of
        Throws e \<Rightarrow> Some (Throws e)
      | Opaque \<Rightarrow> Some Opaque
      | Returns d \<Rightarrow>
          (case map_option fst (getInlinePrebootCodeInvocation L co h) of
             None \<Rightarrow> None
           | Some (Throws e) \<Rightarrow> Some (Throws e)
           | Some Opaque \<Rightarrow> Some Opaque
           | Some (Returns i) \<Rightarrow> Some (Returns (wrap_combined d i))))"
proof -
  let ?m = "merged_object co h"
  have vc: "valid_call co (h @ [?m])" using assms by (rule valid_call_append)
  show ?thesis
    by (auto simp: getInlinePrebootCode_def definition_eq [OF assms] invocation_eq [OF vc]
        invocation_eq [OF assms] merged_object_frame [OF assms] prepared_frame [OF assms]
        wrap_combined_def
        split: outcome.splits option.splits)
qed


theorem combined_nests_witness:
  \<open>map_option fst (getInlinePrebootCode engine_limit example_recorder (Some 1)
       (init_heap @ [example_options])) =
     Some (Returns (wrap_combined (definition_text example_recorder)
       ''prebootInitFn({"buffer":true,"minify":true,"replay":true,"eventSelectors":[{"selector":"input","events":["change"]}],"appRoot":"app"});''))\<close>
proof -
  have d: "fst (getInlinePrebootCodeDefinition example_recorder (Some 1)
                 (init_heap @ [example_options])) = Returns (definition_text example_recorder)"
    unfolding definition_eq [OF valid_example] prepared_example by simp
  have i: \<open>map_option fst (getInlinePrebootCodeInvocation engine_limit (Some 1)
                 (init_heap @ [example_options])) =
     Some (Returns ''prebootInitFn({"buffer":true,"minify":true,"replay":true,"eventSelectors":[{"selector":"input","events":["change"]}],"appRoot":"app"});'')\<close>
    unfolding invocation_eq [OF valid_example] prepared_example stringify_example
    by (simp add: initFunctionName_def)
  show ?thesis
    using combined_nests [OF valid_example, of engine_limit example_recorder]
    unfolding d i by simp
qed



text \<open>Claim C6. The collected code is, between two blank lines at each end, the texts of
  the seven registry members in the order of the registry and then the text of the
  node-key helper, joined by blank lines; each member's text has the first occurrence of
  \<^verbatim>\<open>common_1.\<close> cut out. The claim asks for more, a text free of the prefix, and the
  code does not deliver it: for a recorder whose member \<^verbatim>\<open>createListenHandler\<close> refers
  to the module twice, the second reference stays in the collected code.\<close>

theorem recorder_code_keeps_prefix:
  "getEventRecorderCode env =
     [LF, LF] @ join_js [LF, LF]
        (map (\<lambda>(funcName, fn). strip_first ''common_1.'' fn) (eventRecorder env)
         @ [getNodeKeyForPreboot env]) @ [LF, LF]
   \<and> getEventRecorderCode example_recorder =
     [LF, LF] @ ''function start(d, w) { a(d, w); }'' @ [LF, LF]
     @ ''function createOverlay(d) {}'' @ [LF, LF]
     @ ''function getAppRoots(d, o) { return []; }'' @ [LF, LF]
     @ ''function handleEvents(d, p, a, s) {}'' @ [LF, LF]
     @ ''function createListenHandler(d, p, s, a, n) { return f(common_1.g(n)); }'' @ [LF, LF]
     @ ''function getSelection(n) { return {}; }'' @ [LF, LF]
     @ ''function createBuffer(r) { return r; }'' @ [LF, LF]
     @ ''function getNodeKeyForPreboot(n) { return n.id; }'' @ [LF, LF]
   \<and> sublist ''common_1.'' (getEventRecorderCode example_recorder)"
proof -
  have "\<not> indexOf (getEventRecorderCode example_recorder) ''common_1.'' < 0" by code_simp
  then have "sublist ''common_1.'' (getEventRecorderCode example_recorder)"
    using indexOf_neg_iff by blast
  moreover have "getEventRecorderCode example_recorder =
     [LF, LF] @ ''function start(d, w) { a(d, w); }'' @ [LF, LF]
     @ ''function createOverlay(d) {}'' @ [LF, LF]
     @ ''function getAppRoots(d, o) { return []; }'' @ [LF, LF]
     @ ''function handleEvents(d, p, a, s) {}'' @ [LF, LF]
     @ ''function createListenHandler(d, p, s, a, n) { return f(common_1.g(n)); }'' @ [LF, LF]
     @ ''function getSelection(n) { return {}; }'' @ [LF, LF]
     @ ''function createBuffer(r) { return r; }'' @ [LF, LF]
     @ ''function getNodeKeyForPreboot(n) { return n.id; }'' @ [LF, LF]"
    by code_simp
  moreover have "getEventRecorderCode env =
     [LF, LF] @ join_js [LF, LF]
        (map (\<lambda>(funcName, fn). strip_first ''common_1.'' fn) (eventRecorder env)
         @ [getNodeKeyForPreboot env]) @ [LF, LF]"
    by (simp add: getEventRecorderCode_def push_cleaned_eq replace_first_strip)
  ultimately show ?thesis by blast
qed

text \<open>Claim C10. The splice leaves every escape sequence of the encoder as it is, except
  the escaped line break; so the claim reads the code. The code does not do that for a
  function text that holds a backslash followed by the letter \<^verbatim>\<open>n\<close> (here in a
  regular expression): the encoder writes the backslash as two backslashes, and the loop
  turns the second of them and the \<^verbatim>\<open>n\<close> into a line break. The escaped backslash is
  not left escaped, and the text returned is that of another function.\<close>

theorem splice_breaks_escaped_backslash:
  "stringifyWithFunctions engine_limit (JObj [(''action'', JFun 1 regex_fn)])
     = Some (Returns (''{'' @ quote ''action'' @ '':function (s) { return s.split(/''
                      @ [BSL, LF] @ ''/); }}''))
   \<and> keep_escaped regex_fn = ''function (s) { return s.split(/'' @ [BSL, BSL] @ ''n/); }''
   \<and> stringifyWithFunctions engine_limit (JObj [(''action'', JFun 1 regex_fn)])
       \<noteq> Some (Returns (''{'' @ quote ''action'' @ '':'' @ keep_escaped regex_fn @ ''}''))
   \<and> stringifyWithFunctions engine_limit (JObj [(''action'', JFun 1 regex_fn)])
       \<noteq> Some (Returns (''{'' @ quote ''action'' @ '':'' @ regex_fn @ ''}''))"
  by code_simp

text \<open>Claim C2. For a configuration with two function fields the serializer removes the
  markers and puts each function at its own field, but not intact: the text between the
  markers is the encoded text of the function, and the loop turns back only the escaped
  line breaks. A function whose text holds a double quote comes out with the quote
  still escaped, so the output does not contain the text of the function.\<close>

theorem two_callables_not_intact:
  "stringifyWithFunctions engine_limit quoting_config =
     Some (Returns (''{'' @ quote ''appRoot'' @ '':'' @ quote ''app'' @ '','' @ quote ''action''
        @ '':function (e) {'' @ [LF] @ ''  return e.type === '' @ [BSL, DQ] @ ''click''
        @ [BSL, DQ] @ '';'' @ [LF] @ ''},'' @ quote ''done'' @ '':'' @ plain_fn2 @ ''}''))
   \<and> \<not> sublist quoting_fn
        (''{'' @ quote ''appRoot'' @ '':'' @ quote ''app'' @ '','' @ quote ''action''
        @ '':function (e) {'' @ [LF] @ ''  return e.type === '' @ [BSL, DQ] @ ''click''
        @ [BSL, DQ] @ '';'' @ [LF] @ ''},'' @ quote ''done'' @ '':'' @ plain_fn2 @ ''}'')"
proof -
  have a: "stringifyWithFunctions engine_limit quoting_config =
     Some (Returns (''{'' @ quote ''appRoot'' @ '':'' @ quote ''app'' @ '','' @ quote ''action''
        @ '':function (e) {'' @ [LF] @ ''  return e.type === '' @ [BSL, DQ] @ ''click''
        @ [BSL, DQ] @ '';'' @ [LF] @ ''},'' @ quote ''done'' @ '':'' @ plain_fn2 @ ''}''))"
    by code_simp
  have "indexOf (''{'' @ quote ''appRoot'' @ '':'' @ quote ''app'' @ '','' @ quote ''action''
        @ '':function (e) {'' @ [LF] @ ''  return e.type === '' @ [BSL, DQ] @ ''click''
        @ [BSL, DQ] @ '';'' @ [LF] @ ''},'' @ quote ''done'' @ '':'' @ plain_fn2 @ ''}'')
        quoting_fn < 0"
    by code_simp
  then show ?thesis using a indexOf_neg_iff by blast
qed





end
